theory Spec2Isabelle
  imports Main
begin

section \<open>Python values held in event queues\<close>

text \<open>
  Event records are what the decoder appends with \<^verbatim>\<open>event_received\<close>: tuples of decoded
  fields, or a single value. Only what the wait helpers read of a record is modelled:
  whether it is a tuple, its truth value, and how it compares with \<^verbatim>\<open>==\<close>.
\<close>

datatype pyval =
    PNone
  | PBool bool
  | PInt int
  | PBytes "nat list"
  | PStr string
  | PTuple "pyval list"

text \<open>Truth value of a record, as \<^verbatim>\<open>if ev\<close> reads it.\<close>

fun truthy :: "pyval \<Rightarrow> bool" where
  "truthy PNone = False"
| "truthy (PBool b) = b"
| "truthy (PInt i) = (i \<noteq> 0)"
| "truthy (PBytes bs) = (bs \<noteq> [])"
| "truthy (PStr s) = (s \<noteq> [])"
| "truthy (PTuple vs) = (vs \<noteq> [])"

text \<open>
  Python's \<^verbatim>\<open>==\<close> on these values: \<^verbatim>\<open>bool\<close> is a subclass of \<^verbatim>\<open>int\<close>, so
  \<^verbatim>\<open>True == 1\<close>; tuples compare element by element; values of unrelated types differ.
\<close>

fun py_eq :: "pyval \<Rightarrow> pyval \<Rightarrow> bool" where
  "py_eq PNone PNone = True"
| "py_eq (PBool a) (PBool b) = (a = b)"
| "py_eq (PBool a) (PInt j) = ((if a then 1 else 0) = j)"
| "py_eq (PInt i) (PBool b) = (i = (if b then 1 else 0))"
| "py_eq (PInt i) (PInt j) = (i = j)"
| "py_eq (PBytes a) (PBytes b) = (a = b)"
| "py_eq (PStr a) (PStr b) = (a = b)"
| "py_eq (PTuple xs) (PTuple ys) = list_all2 py_eq xs ys"
| "py_eq _ _ = False"

text \<open>
  A queued record is an object: its identity (what \<^verbatim>\<open>is\<close> compares) and its value.
\<close>

type_synonym event = "nat \<times> pyval"

text \<open>
  The comparison \<^verbatim>\<open>list.remove\<close> applies to each item: identity first, then \<^verbatim>\<open>==\<close>.
\<close>

definition same_or_equal :: "event \<Rightarrow> event \<Rightarrow> bool" where
  "same_or_equal item v = (fst item = fst v \<or> py_eq (snd item) (snd v))"

datatype exn = GlobalEnd | ValueError | AttributeError | BrokenBarrierError

text \<open>
  \<^verbatim>\<open>event_queue.remove(ev)\<close>: drops the first item that is \<^verbatim>\<open>ev\<close> or equals it;
  \<^verbatim>\<open>None\<close> stands for the \<^verbatim>\<open>ValueError\<close> raised when there is none.
\<close>

fun list_remove :: "event \<Rightarrow> event list \<Rightarrow> event list option" where
  "list_remove v [] = None"
| "list_remove v (item # items) =
     (if same_or_equal item v then Some items
      else map_option ((#) item) (list_remove v items))"

section \<open>Waiting on an event queue\<close>

text \<open>
  The callback receives the fields of a tuple record (\<^verbatim>\<open>condition_cb(*ev)\<close>) and any
  other record whole (\<^verbatim>\<open>condition_cb(ev)\<close>).
\<close>

definition call_condition :: "(pyval list \<Rightarrow> bool) \<Rightarrow> event \<Rightarrow> bool" where
  "call_condition condition_cb ev =
     (case snd ev of PTuple fields \<Rightarrow> condition_cb fields | v \<Rightarrow> condition_cb [v])"

text \<open>
  One pass of \<^verbatim>\<open>for ev in event_queue\<close>: the first record the test accepts ends the
  pass; after every other record the loop sleeps and moves on.
\<close>

fun scan_queue :: "(event \<Rightarrow> bool) \<Rightarrow> event list \<Rightarrow> event option" where
  "scan_queue test [] = None"
| "scan_queue test (ev # evs) = (if test ev then Some ev else scan_queue test evs)"

text \<open>
  What the rest of the process did before one iteration of a \<^verbatim>\<open>while flag.is_set()\<close>
  loop: whether the global end flag is raised when \<^verbatim>\<open>raise_on_global_end()\<close> reads it,
  and the records other threads appended to the queue since the previous iteration.
  The list of polls given to a wait holds the iterations that begin before the
  \<^verbatim>\<open>Timer\<close> clears the flag; it stands for the \<^verbatim>\<open>timeout\<close> argument.
\<close>

record poll =
  global_end :: bool
  appended :: "event list"

text \<open>
  Modelled from the spec: \<^verbatim>\<open>raise_on_global_end\<close> lives in \<^verbatim>\<open>autopts.utils\<close>; it aborts
  the caller with an exception when the process-wide cancellation flag is raised and
  does nothing otherwise.
\<close>

definition raise_on_global_end :: "bool \<Rightarrow> exn option" where
  "raise_on_global_end flag = (if flag then Some GlobalEnd else None)"

text \<open>
  The body shared by both queue waits after a record was accepted:
  \<^verbatim>\<open>if ev and remove: event_queue.remove(ev)\<close>, then \<^verbatim>\<open>return ev\<close>.
\<close>

definition take_event :: "event \<Rightarrow> bool \<Rightarrow> event list \<Rightarrow> (exn + event option) \<times> event list" where
  "take_event ev remove event_queue =
     (if truthy (snd ev) \<and> remove then
        (case list_remove ev event_queue of
           None \<Rightarrow> (Inl ValueError, event_queue)
         | Some rest \<Rightarrow> (Inr (Some ev), rest))
      else (Inr (Some ev), event_queue))"

fun wait_event_with_condition ::
  "event list \<Rightarrow> (pyval list \<Rightarrow> bool) \<Rightarrow> poll list \<Rightarrow> bool \<Rightarrow> (exn + event option) \<times> event list"
where
  "wait_event_with_condition event_queue condition_cb [] remove = (Inr None, event_queue)"
| "wait_event_with_condition event_queue condition_cb (p # polls) remove =
     (let q = event_queue @ appended p in
      case raise_on_global_end (global_end p) of
        Some e \<Rightarrow> (Inl e, q)
      | None \<Rightarrow>
          (case scan_queue (call_condition condition_cb) q of
             Some ev \<Rightarrow> take_event ev remove q
           | None \<Rightarrow> wait_event_with_condition q condition_cb polls remove))"



section \<open>Procedure-completion predicates of the GATT client\<close>

text \<open>
  \<^verbatim>\<open>is_procedure_done(list, cnt)\<close>: the expected count is \<^verbatim>\<open>None\<close> until the
  response that announces it has arrived. Only the length of the list is read.
\<close>

definition is_procedure_done :: "'a list \<Rightarrow> int option \<Rightarrow> bool" where
  "is_procedure_done list cnt =
     (case cnt of
        None \<Rightarrow> False
      | Some c \<Rightarrow> if c \<le> 0 then True else int (length list) = c)"

text \<open>
  \<^verbatim>\<open>GattCl.is_notification_rxed(expected_count)\<close>, with \<^verbatim>\<open>self.notifications\<close> passed
  explicitly.
\<close>

definition is_notification_rxed :: "'a list \<Rightarrow> int \<Rightarrow> bool" where
  "is_notification_rxed notifications expected_count =
     (if expected_count > 0 then int (length notifications) = expected_count
      else length notifications > 0)"

section \<open>The event queues of the core service\<close>

text \<open>
  \<^verbatim>\<open>CORE.event_queues\<close> is a dictionary from event type to queue, kept here in its
  insertion order. \<^verbatim>\<open>CORE.cleanup\<close> walks the keys; \<^verbatim>\<open>defs.CORE_EV_IUT_READY\<close> is a
  constant of a module outside this file and is a parameter.
\<close>

fun cleanup :: "nat \<Rightarrow> (nat \<times> event list) list \<Rightarrow> (nat \<times> event list) list" where
  "cleanup iut_ready [] = []"
| "cleanup iut_ready ((key, q) # rest) =
     (if key = iut_ready then (key, q) # cleanup iut_ready rest
      else (key, []) # cleanup iut_ready rest)"

section \<open>Polling waits on live state\<close>

text \<open>
  A wait that polls an object reads, at every iteration of its loop, the global end
  flag and the object's fields as other threads left them. A tick is that pair; the
  list of ticks holds the iterations that begin before the \<^verbatim>\<open>Timer\<close> clears the
  flag.
\<close>

type_synonym 's tick = "bool \<times> 's"

text \<open>\<^verbatim>\<open>wait_for_event(timeout, test, args)\<close>; \<^verbatim>\<open>now\<close> is the state at the call.\<close>

fun wait_for_event_loop :: "('s \<Rightarrow> 'a \<Rightarrow> bool) \<Rightarrow> 'a \<Rightarrow> 's tick list \<Rightarrow> exn + bool" where
  "wait_for_event_loop test args [] = Inr False"
| "wait_for_event_loop test args ((ge, s) # ticks) =
     (case raise_on_global_end ge of
        Some e \<Rightarrow> Inl e
      | None \<Rightarrow> if test s args then Inr True else wait_for_event_loop test args ticks)"

definition wait_for_event :: "'s \<Rightarrow> 's tick list \<Rightarrow> ('s \<Rightarrow> 'a \<Rightarrow> bool) \<Rightarrow> 'a \<Rightarrow> exn + bool" where
  "wait_for_event now ticks test args =
     (if test now args then Inr True else wait_for_event_loop test args ticks)"

text \<open>The fields of \<^verbatim>\<open>Mesh\<close> that the three waits below read.\<close>

record mesh =
  blob_lost_target :: bool
  model_recv_ev_data :: "(int \<times> int \<times> nat list) option"
  nodes_added :: "string list"

fun wait_for_node_added_uuid_loop :: "string \<Rightarrow> mesh tick list \<Rightarrow> exn + bool" where
  "wait_for_node_added_uuid_loop uuid [] = Inr False"
| "wait_for_node_added_uuid_loop uuid ((ge, self) # ticks) =
     (case raise_on_global_end ge of
        Some e \<Rightarrow> Inl e
      | None \<Rightarrow>
          if uuid \<in> set (nodes_added self) then Inr True
          else wait_for_node_added_uuid_loop uuid ticks)"

definition wait_for_node_added_uuid :: "mesh \<Rightarrow> mesh tick list \<Rightarrow> string \<Rightarrow> exn + bool" where
  "wait_for_node_added_uuid self ticks uuid =
     (if uuid \<in> set (nodes_added self) then Inr True
      else wait_for_node_added_uuid_loop uuid ticks)"

text \<open>
  \<^verbatim>\<open>data is not None and data[2][0:4] == op\<close> on the \<^verbatim>\<open>(src, dst, payload)\<close> tuple.
\<close>

definition model_op_received :: "mesh \<Rightarrow> nat list \<Rightarrow> bool" where
  "model_op_received self op =
     (case model_recv_ev_data self of
        None \<Rightarrow> False
      | Some (src, dst, payload) \<Rightarrow> take 4 payload = op)"

text \<open>
  \<^verbatim>\<open>Mesh.wait_for_model_added_op(timeout, op)\<close>. The loop body reads the received data
  and nothing else. The result carries the object as the call leaves it: the last
  state it read, with the data reset when the opcode was found.
\<close>

fun wait_for_model_added_op_loop :: "mesh \<Rightarrow> nat list \<Rightarrow> mesh tick list \<Rightarrow> (exn + bool) \<times> mesh" where
  "wait_for_model_added_op_loop seen op [] = (Inr False, seen)"
| "wait_for_model_added_op_loop seen op ((ge, self) # ticks) =
     (if model_op_received self op
      then (Inr True, self\<lparr>model_recv_ev_data := Some (0, 0, [])\<rparr>)
      else wait_for_model_added_op_loop self op ticks)"

definition wait_for_model_added_op :: "mesh \<Rightarrow> mesh tick list \<Rightarrow> nat list \<Rightarrow> (exn + bool) \<times> mesh" where
  "wait_for_model_added_op self ticks op =
     (if model_op_received self op
      then (Inr True, self\<lparr>model_recv_ev_data := Some (0, 0, [])\<rparr>)
      else wait_for_model_added_op_loop self op ticks)"

text \<open>\<^verbatim>\<open>Mesh.wait_for_blob_target_lost(timeout)\<close>: the loop reads one field.\<close>

fun wait_for_blob_target_lost_loop :: "mesh tick list \<Rightarrow> exn + bool" where
  "wait_for_blob_target_lost_loop [] = Inr False"
| "wait_for_blob_target_lost_loop ((ge, self) # ticks) =
     (if blob_lost_target self then Inr True else wait_for_blob_target_lost_loop ticks)"

definition wait_for_blob_target_lost :: "mesh \<Rightarrow> mesh tick list \<Rightarrow> exn + bool" where
  "wait_for_blob_target_lost self ticks =
     (if blob_lost_target self then Inr True else wait_for_blob_target_lost_loop ticks)"

section \<open>Synchronisation of test-case threads\<close>

subsection \<open>Objects and the store\<close>

text \<open>
  \<^verbatim>\<open>SynchPoint\<close> and \<^verbatim>\<open>SynchElem\<close> objects are shared between threads and between
  runs, so they live in a store and are named by their addresses. The field
  \<^verbatim>\<open>done\<close> of a point refers to a \<^verbatim>\<open>ResultWithFlag\<close> object, or is \<^verbatim>\<open>None\<close> as the
  constructor leaves it. The delay is a number of seconds.
\<close>

record synch_point =
  test_case :: string
  wid :: int
  delay :: "nat option"
  done_flag :: "nat option"

text \<open>
  \<^verbatim>\<open>threading.Barrier\<close> of the standard library, as far as the code reads it: the
  number of parties and the \<^verbatim>\<open>broken\<close> property.
\<close>

record barrier =
  parties :: nat
  broken :: bool

record synch_elem =
  sync_points :: "nat list"
  active_synch_point :: "nat option"
  start_barrier :: barrier
  end_barrier :: barrier

datatype side = Entry | Exit

text \<open>What a thread did, in the order it did it.\<close>

datatype action =
    Slept nat
  | SetDone nat
  | Waited nat
  | BarrierWait side nat
  | Removed nat

text \<open>
  Modelled from the spec: \<^verbatim>\<open>ResultWithFlag\<close> lives in \<^verbatim>\<open>autopts.utils\<close>; the completion
  signal is boolean-valued, settable, waitable and resettable. The store \<open>flags\<close>
  holds, for every such object, whether it is set; \<open>next_flag\<close> is the first address
  no object has been given yet.
\<close>

record world =
  points :: "nat \<Rightarrow> synch_point"
  flags :: "nat \<Rightarrow> bool"
  next_flag :: nat
  elems :: "nat \<Rightarrow> synch_elem"
  next_elem :: nat
  synch_table :: "nat list"
  trace :: "action list"

datatype 'a outcome = Returns 'a | Raises exn | Blocks

definition logged :: "action \<Rightarrow> world \<Rightarrow> world" where
  "logged a w = w\<lparr>trace := trace w @ [a]\<rparr>"

subsection \<open>SynchPoint\<close>

definition set_done :: "nat \<Rightarrow> world \<Rightarrow> exn + world" where
  "set_done p w =
     (case done_flag (points w p) of
        None \<Rightarrow> Inl AttributeError
      | Some f \<Rightarrow> Inr (logged (SetDone p) (w\<lparr>flags := (flags w)(f := True)\<rparr>)))"

definition clear :: "nat \<Rightarrow> world \<Rightarrow> exn + world" where
  "clear p w =
     (case done_flag (points w p) of
        None \<Rightarrow> Inl AttributeError
      | Some f \<Rightarrow> Inr (w\<lparr>flags := (flags w)(f := False)\<rparr>))"

text \<open>
  What other threads do to the shared objects while the caller is blocked: set or
  clear the signal of a point, abort a barrier of an element.
\<close>

datatype env_action = OtherSetDone nat | OtherClear nat | OtherAbort side nat

definition break_barrier :: "side \<Rightarrow> synch_elem \<Rightarrow> synch_elem" where
  "break_barrier sd e =
     (case sd of
        Entry \<Rightarrow> e\<lparr>start_barrier := (start_barrier e)\<lparr>broken := True\<rparr>\<rparr>
      | Exit \<Rightarrow> e\<lparr>end_barrier := (end_barrier e)\<lparr>broken := True\<rparr>\<rparr>)"

text \<open>\<^verbatim>\<open>Barrier.abort()\<close> on one of the two barriers of an element.\<close>

definition abort :: "side \<Rightarrow> nat \<Rightarrow> world \<Rightarrow> world" where
  "abort sd eid w = w\<lparr>elems := (elems w)(eid := break_barrier sd (elems w eid))\<rparr>"

fun env_step :: "env_action \<Rightarrow> world \<Rightarrow> world" where
  "env_step (OtherSetDone p) w =
     (case done_flag (points w p) of
        None \<Rightarrow> w
      | Some f \<Rightarrow> w\<lparr>flags := (flags w)(f := True)\<rparr>)"
| "env_step (OtherClear p) w =
     (case done_flag (points w p) of
        None \<Rightarrow> w
      | Some f \<Rightarrow> w\<lparr>flags := (flags w)(f := False)\<rparr>)"
| "env_step (OtherAbort sd eid) w = abort sd eid w"

text \<open>
  Blocking on a signal: the caller leaves the wait at the first moment the signal is
  set. The schedule lists what the other threads do from now on; a schedule that ends
  with the signal unset leaves the caller blocked for good.
\<close>

fun flag_wait :: "nat \<Rightarrow> env_action list \<Rightarrow> world \<Rightarrow> bool \<times> env_action list \<times> world" where
  "flag_wait f [] w = (flags w f, [], w)"
| "flag_wait f (a # sched) w =
     (if flags w f then (True, a # sched, w) else flag_wait f sched (env_step a w))"

text \<open>\<^verbatim>\<open>SynchPoint.wait\<close>: \<^verbatim>\<open>self.done.wait()\<close>.\<close>

definition wait :: "nat \<Rightarrow> env_action list \<Rightarrow> world \<Rightarrow> unit outcome \<times> env_action list \<times> world" where
  "wait p sched w =
     (case done_flag (points w p) of
        None \<Rightarrow> (Raises AttributeError, sched, w)
      | Some f \<Rightarrow>
          (case flag_wait f sched w of
             (True, sched', w') \<Rightarrow> (Returns (), sched', logged (Waited p) w')
           | (False, sched', w') \<Rightarrow> (Blocks, sched', w')))"

subsection \<open>SynchElem\<close>

definition SynchElem_init :: "nat list \<Rightarrow> synch_elem" where
  "SynchElem_init pts =
     \<lparr>sync_points = pts, active_synch_point = None,
      start_barrier = \<lparr>parties = length pts, broken = False\<rparr>,
      end_barrier = \<lparr>parties = length pts, broken = False\<rparr>\<rparr>"

definition find_matching :: "nat \<Rightarrow> string \<Rightarrow> int \<Rightarrow> world \<Rightarrow> nat option" where
  "find_matching eid tc wd w =
     find (\<lambda>item. test_case (points w item) = tc \<and> wid (points w item) = wd)
          (sync_points (elems w eid))"

fun clear_each :: "nat list \<Rightarrow> world \<Rightarrow> exn + world" where
  "clear_each [] w = Inr w"
| "clear_each (point # rest) w =
     (case clear point w of Inl e \<Rightarrow> Inl e | Inr w' \<Rightarrow> clear_each rest w')"

definition clear_flags :: "nat \<Rightarrow> world \<Rightarrow> exn + world" where
  "clear_flags eid w = clear_each (sync_points (elems w eid)) w"

definition barrier_of :: "side \<Rightarrow> synch_elem \<Rightarrow> barrier" where
  "barrier_of sd e = (case sd of Entry \<Rightarrow> start_barrier e | Exit \<Rightarrow> end_barrier e)"

text \<open>
  What happens to a barrier while the caller is inside \<^verbatim>\<open>Barrier.wait()\<close>: the other
  parties arrive; they arrive and the barrier is aborted right after the release;
  the barrier is aborted before they arrive; or neither ever happens.
\<close>

datatype barrier_event = Release | ReleaseThenAbort | Abort | Stall

text \<open>
  The release of a barrier runs its action, \<^verbatim>\<open>clear_flags\<close>, before any party leaves;
  an action that raises breaks the barrier.
\<close>

definition release :: "side \<Rightarrow> nat \<Rightarrow> world \<Rightarrow> unit outcome \<times> world" where
  "release sd eid w =
     (case clear_flags eid w of
        Inl e \<Rightarrow> (Raises e, abort sd eid w)
      | Inr w' \<Rightarrow> (Returns (), w'))"

text \<open>
  \<^verbatim>\<open>Barrier.wait()\<close> as the standard library documents it: on a broken barrier, and
  on one aborted while the caller waits, it raises \<^verbatim>\<open>BrokenBarrierError\<close>; a barrier
  of one party is completed by the caller itself.
\<close>

definition barrier_wait :: "side \<Rightarrow> nat \<Rightarrow> barrier_event \<Rightarrow> world \<Rightarrow> unit outcome \<times> world" where
  "barrier_wait sd eid ev w =
     (let w0 = logged (BarrierWait sd eid) w in
      if broken (barrier_of sd (elems w0 eid)) then (Raises BrokenBarrierError, w0)
      else if parties (barrier_of sd (elems w0 eid)) = 1 then release sd eid w0
      else
        (case ev of
           Release \<Rightarrow> release sd eid w0
         | ReleaseThenAbort \<Rightarrow>
             (case release sd eid w0 of (r, w1) \<Rightarrow> (r, abort sd eid w1))
         | Abort \<Rightarrow> (Raises BrokenBarrierError, abort sd eid w0)
         | Stall \<Rightarrow> (Blocks, w0)))"

definition barrier_step :: "side \<Rightarrow> nat \<Rightarrow> barrier_event \<Rightarrow> world \<Rightarrow> bool outcome \<times> world" where
  "barrier_step sd eid ev w =
     (case barrier_wait sd eid ev w of
        (Returns u, w') \<Rightarrow>
          (if broken (barrier_of sd (elems w' eid)) then (Returns False, w')
           else (Returns True, w'))
      | (Raises e, w') \<Rightarrow> (Raises e, w')
      | (Blocks, w') \<Rightarrow> (Blocks, w'))"

definition SynchElem_wait_for_start :: "nat \<Rightarrow> barrier_event \<Rightarrow> world \<Rightarrow> bool outcome \<times> world" where
  "SynchElem_wait_for_start eid ev w = barrier_step Entry eid ev w"


definition set_active :: "nat \<Rightarrow> nat \<Rightarrow> world \<Rightarrow> world" where
  "set_active eid p w =
     w\<lparr>elems := (elems w)(eid := (elems w eid)\<lparr>active_synch_point := Some p\<rparr>)\<rparr>"

text \<open>
  \<^verbatim>\<open>SynchElem.wait_for_your_turn\<close>: the loop over \<^verbatim>\<open>self.sync_points\<close>. Points are
  compared by identity, \<^verbatim>\<open>SynchPoint\<close> defining no \<^verbatim>\<open>__eq__\<close>.
\<close>

fun wait_for_your_turn_loop ::
  "nat \<Rightarrow> nat \<Rightarrow> nat list \<Rightarrow> env_action list \<Rightarrow> world \<Rightarrow> bool outcome \<times> world"
where
  "wait_for_your_turn_loop eid synch_point [] sched w = (Returns False, w)"
| "wait_for_your_turn_loop eid synch_point (point # rest) sched w =
     (if point = synch_point then (Returns True, set_active eid synch_point w)
      else
        (case wait point sched w of
           (Returns u, sched', w') \<Rightarrow>
             (if broken (start_barrier (elems w' eid)) \<or> broken (end_barrier (elems w' eid))
              then (Returns False, w')
              else wait_for_your_turn_loop eid synch_point rest sched' w')
         | (Raises e, sched', w') \<Rightarrow> (Raises e, w')
         | (Blocks, sched', w') \<Rightarrow> (Blocks, w')))"

definition wait_for_your_turn :: "nat \<Rightarrow> nat \<Rightarrow> env_action list \<Rightarrow> world \<Rightarrow> bool outcome \<times> world" where
  "wait_for_your_turn eid synch_point sched w =
     wait_for_your_turn_loop eid synch_point (sync_points (elems w eid)) sched w"

fun set_done_each :: "nat list \<Rightarrow> world \<Rightarrow> exn + world" where
  "set_done_each [] w = Inr w"
| "set_done_each (point # rest) w =
     (case set_done point w of Inl e \<Rightarrow> Inl e | Inr w' \<Rightarrow> set_done_each rest w')"

definition SynchElem_cancel_synch :: "nat \<Rightarrow> world \<Rightarrow> exn + world" where
  "SynchElem_cancel_synch eid w =
     set_done_each (sync_points (elems w eid)) (abort Entry eid (abort Exit eid w))"

subsection \<open>Synch\<close>

definition reinit :: "world \<Rightarrow> world" where
  "reinit w = w\<lparr>synch_table := []\<rparr>"

text \<open>
  The loop of \<^verbatim>\<open>add_synch_element\<close>: \<^verbatim>\<open>sync_point.done = ResultWithFlag()\<close> for each
  point of the list. A new object is unset.
\<close>

fun renew_done_flags :: "nat list \<Rightarrow> world \<Rightarrow> world" where
  "renew_done_flags [] w = w"
| "renew_done_flags (sync_point # rest) w =
     renew_done_flags rest
       (w\<lparr>points := (points w)(sync_point := (points w sync_point)\<lparr>done_flag := Some (next_flag w)\<rparr>),
          flags := (flags w)(next_flag w := False),
          next_flag := Suc (next_flag w)\<rparr>)"

definition add_synch_element :: "nat list \<Rightarrow> world \<Rightarrow> world" where
  "add_synch_element elem w =
     (let w1 = renew_done_flags elem w; eid = next_elem w1
      in w1\<lparr>elems := (elems w1)(eid := SynchElem_init elem),
             next_elem := Suc eid,
             synch_table := synch_table w1 @ [eid]\<rparr>)"

text \<open>The scan of the table in \<^verbatim>\<open>Synch.wait_for_start\<close>: the first element with a match.\<close>

fun find_synch_point :: "nat list \<Rightarrow> string \<Rightarrow> int \<Rightarrow> world \<Rightarrow> (nat \<times> nat) option" where
  "find_synch_point [] tc_name wd w = None"
| "find_synch_point (elem # rest) tc_name wd w =
     (case find_matching elem tc_name wd w of
        Some synch_point \<Rightarrow> Some (elem, synch_point)
      | None \<Rightarrow> find_synch_point rest tc_name wd w)"

definition Synch_wait_for_start ::
  "int \<Rightarrow> string \<Rightarrow> barrier_event \<Rightarrow> env_action list \<Rightarrow> world \<Rightarrow> nat option outcome \<times> world"
where
  "Synch_wait_for_start wd tc_name ev sched w =
     (case find_synch_point (synch_table w) tc_name wd w of
        None \<Rightarrow> (Returns None, w)
      | Some (elem, synch_point) \<Rightarrow>
          (case SynchElem_wait_for_start elem ev w of
             (Raises e, w1) \<Rightarrow> (Raises e, w1)
           | (Blocks, w1) \<Rightarrow> (Blocks, w1)
           | (Returns started, w1) \<Rightarrow>
               if \<not> started then (Returns None, w1)
               else
                 (case wait_for_your_turn elem synch_point sched w1 of
                    (Raises e, w2) \<Rightarrow> (Raises e, w2)
                  | (Blocks, w2) \<Rightarrow> (Blocks, w2)
                  | (Returns turn, w2) \<Rightarrow>
                      if \<not> turn then (Returns None, w2) else (Returns (Some elem), w2))))"




fun cancel_each :: "nat list \<Rightarrow> world \<Rightarrow> exn + world" where
  "cancel_each [] w = Inr w"
| "cancel_each (elem # rest) w =
     (case SynchElem_cancel_synch elem w of Inl e \<Rightarrow> Inl e | Inr w' \<Rightarrow> cancel_each rest w')"

definition Synch_cancel_synch :: "world \<Rightarrow> exn + world" where
  "Synch_cancel_synch w =
     (case cancel_each (synch_table w) w of
        Inl e \<Rightarrow> Inl e
      | Inr w' \<Rightarrow> Inr (w'\<lparr>synch_table := []\<rparr>))"

subsection \<open>Notions used to state the properties\<close>

text \<open>
  Every registered element was created by \<^verbatim>\<open>add_synch_element\<close>, and every one of its
  points has a completion signal.
\<close>

definition registered :: "world \<Rightarrow> bool" where
  "registered w =
     (\<forall>e\<in>set (synch_table w).
        e < next_elem w \<and> (\<forall>p\<in>set (sync_points (elems w e)). done_flag (points w p) \<noteq> None))"

text \<open>
  What cancelling may change between two stores: signals become set and barriers
  become broken, while the points, the point list of every element and the table stay
  as they are.
\<close>

definition released_more :: "world \<Rightarrow> world \<Rightarrow> bool" where
  "released_more w w' =
     (points w' = points w \<and> synch_table w' = synch_table w \<and>
      (\<forall>e. sync_points (elems w' e) = sync_points (elems w e)) \<and>
      (\<forall>e. broken (start_barrier (elems w e)) \<longrightarrow> broken (start_barrier (elems w' e))) \<and>
      (\<forall>e. broken (end_barrier (elems w e)) \<longrightarrow> broken (end_barrier (elems w' e))) \<and>
      (\<forall>f. flags w f \<longrightarrow> flags w' f))"

text \<open>
  The store after the first \<open>k\<close> actions of the other threads, and whether the
  completion signal of a point is set at that moment.
\<close>

definition world_at :: "nat \<Rightarrow> env_action list \<Rightarrow> world \<Rightarrow> world" where
  "world_at k sched w = fold env_step (take k sched) w"

definition signal_set_at :: "nat \<Rightarrow> env_action list \<Rightarrow> world \<Rightarrow> nat \<Rightarrow> bool" where
  "signal_set_at k sched w p =
     (case done_flag (points w p) of
        None \<Rightarrow> False
      | Some f \<Rightarrow> flags (world_at k sched w) f)"

text \<open>The points registered ahead of a point in a list.\<close>

definition predecessors :: "nat \<Rightarrow> nat list \<Rightarrow> nat list" where
  "predecessors synch_point pts = takeWhile (\<lambda>p. p \<noteq> synch_point) pts"

section \<open>The turn protocol as run by all threads of a scenario\<close>

text \<open>Where a thread stands in \<^verbatim>\<open>Synch.wait_for_start\<close> and \<^verbatim>\<open>Synch.wait_for_end\<close>:
  before, inside and after \<^verbatim>\<open>Barrier.wait()\<close> of the entry barrier; in the loop of
  \<^verbatim>\<open>wait_for_your_turn\<close> at index \<open>k\<close>, before the comparison or after \<^verbatim>\<open>point.wait()\<close>
  returned; holding the element that \<^verbatim>\<open>wait_for_start\<close> returned; after \<^verbatim>\<open>set_done\<close>,
  before, inside and after \<^verbatim>\<open>Barrier.wait()\<close> of the exit barrier; returned from
  \<^verbatim>\<open>wait_for_end\<close>; or out of the protocol by a failure return or an exception.
\<close>

datatype place =
    AtEntry | InEntry | PastEntry
  | Turn nat | Woken nat
  | Acting
  | AtExit | InExit | PastExit
  | Left | Failed

text \<open>
  The shared state of one element with \<open>n\<close> points and of the \<open>n\<close> threads of its
  scenario, thread \<open>i\<close> calling \<^verbatim>\<open>wait_for_start\<close> and then \<^verbatim>\<open>wait_for_end\<close> for the point
  at index \<open>i\<close>. \<open>turn_done\<close> records which threads have executed \<^verbatim>\<open>set_done\<close> in
  \<^verbatim>\<open>wait_for_end\<close>; the code does not read it.
\<close>

record system =
  place_of :: "nat \<Rightarrow> place"
  signal :: "nat \<Rightarrow> bool"
  turn_done :: "nat \<Rightarrow> bool"
  active_point :: "nat option"
  entry_count :: nat
  entry_open :: bool
  entry_broken :: bool
  exit_count :: nat
  exit_open :: bool
  exit_broken :: bool

definition moved :: "nat \<Rightarrow> place \<Rightarrow> system \<Rightarrow> system" where
  "moved i pl s = s\<lparr>place_of := (place_of s)(i := pl)\<rparr>"

definition start_state :: system where
  "start_state =
     \<lparr>place_of = (\<lambda>i. AtEntry), signal = (\<lambda>k. False), turn_done = (\<lambda>k. False),
      active_point = None,
      entry_count = 0, entry_open = False, entry_broken = False,
      exit_count = 0, exit_open = False, exit_broken = False\<rparr>"

text \<open>
  One atomic action of one thread, or of a thread running \<^verbatim>\<open>cancel_synch\<close> (abort the
  exit barrier, then the entry barrier, then set the signals). A thread inside a
  barrier leaves it once the barrier is open or broken; the thread that completes a
  barrier runs \<^verbatim>\<open>clear_flags\<close>. \<^verbatim>\<open>wait_for_end\<close> sets the signal of the point stored in
  \<^verbatim>\<open>active_synch_point\<close>.
\<close>

inductive step :: "nat \<Rightarrow> system \<Rightarrow> system \<Rightarrow> bool" for n :: nat where
  entry_broken_raises:
    "i < n \<Longrightarrow> place_of s i = AtEntry \<Longrightarrow> entry_broken s \<Longrightarrow> step n s (moved i Failed s)"
| entry_arrive:
    "i < n \<Longrightarrow> place_of s i = AtEntry \<Longrightarrow> \<not> entry_broken s \<Longrightarrow> Suc (entry_count s) < n \<Longrightarrow>
       step n s (moved i InEntry (s\<lparr>entry_count := Suc (entry_count s)\<rparr>))"
| entry_complete:
    "i < n \<Longrightarrow> place_of s i = AtEntry \<Longrightarrow> \<not> entry_broken s \<Longrightarrow> Suc (entry_count s) = n \<Longrightarrow>
       step n s (moved i PastEntry
         (s\<lparr>entry_count := Suc (entry_count s), entry_open := True, signal := (\<lambda>k. False)\<rparr>))"
| entry_released:
    "i < n \<Longrightarrow> place_of s i = InEntry \<Longrightarrow> \<not> entry_broken s \<Longrightarrow> entry_open s \<Longrightarrow>
       step n s (moved i PastEntry s)"
| entry_aborted:
    "i < n \<Longrightarrow> place_of s i = InEntry \<Longrightarrow> entry_broken s \<Longrightarrow> step n s (moved i Failed s)"
| entry_checked:
    "i < n \<Longrightarrow> place_of s i = PastEntry \<Longrightarrow>
       step n s (moved i (if entry_broken s then Failed else Turn 0) s)"
| turn_taken:
    "i < n \<Longrightarrow> place_of s i = Turn i \<Longrightarrow>
       step n s (moved i Acting (s\<lparr>active_point := Some i\<rparr>))"
| turn_waited:
    "i < n \<Longrightarrow> place_of s i = Turn k \<Longrightarrow> k \<noteq> i \<Longrightarrow> k < n \<Longrightarrow> signal s k \<Longrightarrow>
       step n s (moved i (Woken k) s)"
| turn_exhausted:
    "i < n \<Longrightarrow> place_of s i = Turn k \<Longrightarrow> k \<noteq> i \<Longrightarrow> n \<le> k \<Longrightarrow> step n s (moved i Failed s)"
| turn_checked:
    "i < n \<Longrightarrow> place_of s i = Woken k \<Longrightarrow>
       step n s (moved i (if entry_broken s \<or> exit_broken s then Failed else Turn (Suc k)) s)"
| turn_ended:
    "i < n \<Longrightarrow> place_of s i = Acting \<Longrightarrow> active_point s = Some a \<Longrightarrow>
       step n s (moved i AtExit (s\<lparr>signal := (signal s)(a := True), turn_done := (turn_done s)(i := True)\<rparr>))"
| exit_broken_raises:
    "i < n \<Longrightarrow> place_of s i = AtExit \<Longrightarrow> exit_broken s \<Longrightarrow> step n s (moved i Failed s)"
| exit_arrive:
    "i < n \<Longrightarrow> place_of s i = AtExit \<Longrightarrow> \<not> exit_broken s \<Longrightarrow> Suc (exit_count s) < n \<Longrightarrow>
       step n s (moved i InExit (s\<lparr>exit_count := Suc (exit_count s)\<rparr>))"
| exit_complete:
    "i < n \<Longrightarrow> place_of s i = AtExit \<Longrightarrow> \<not> exit_broken s \<Longrightarrow> Suc (exit_count s) = n \<Longrightarrow>
       step n s (moved i PastExit
         (s\<lparr>exit_count := Suc (exit_count s), exit_open := True, signal := (\<lambda>k. False)\<rparr>))"
| exit_released:
    "i < n \<Longrightarrow> place_of s i = InExit \<Longrightarrow> \<not> exit_broken s \<Longrightarrow> exit_open s \<Longrightarrow>
       step n s (moved i PastExit s)"
| exit_aborted:
    "i < n \<Longrightarrow> place_of s i = InExit \<Longrightarrow> exit_broken s \<Longrightarrow> step n s (moved i Failed s)"
| exit_checked:
    "i < n \<Longrightarrow> place_of s i = PastExit \<Longrightarrow>
       step n s (moved i (if exit_broken s then Failed else Left) s)"
| cancel_abort_exit:
    "step n s (s\<lparr>exit_broken := True\<rparr>)"
| cancel_abort_entry:
    "exit_broken s \<Longrightarrow> step n s (s\<lparr>entry_broken := True\<rparr>)"
| cancel_set_done:
    "exit_broken s \<Longrightarrow> entry_broken s \<Longrightarrow> k < n \<Longrightarrow> step n s (s\<lparr>signal := (signal s)(k := True)\<rparr>)"

inductive reachable :: "nat \<Rightarrow> system \<Rightarrow> bool" for n :: nat where
  reachable_start: "reachable n start_state"
| reachable_step: "reachable n s \<Longrightarrow> step n s s' \<Longrightarrow> reachable n s'"

text \<open>A thread that has not yet left its turn.\<close>

definition before_turn :: "place \<Rightarrow> bool" where
  "before_turn pl = (case pl of AtEntry \<Rightarrow> True | InEntry \<Rightarrow> True | PastEntry \<Rightarrow> True
      | Turn k \<Rightarrow> True | Woken k \<Rightarrow> True | Acting \<Rightarrow> True | _ \<Rightarrow> False)"

text \<open>
  The invariant of the protocol: a thread in the loop at index \<open>k\<close> has seen the threads
  before \<open>k\<close> finish; a thread woken on a set signal sees either a finished turn or
  an aborted element; a thread holding the element is the active one and follows
  finished turns only; a finished turn is never re-entered; a set signal comes from
  a finished turn or from cancelling.
\<close>

definition orderly :: "system \<Rightarrow> bool" where
  "orderly s =
     ((\<forall>i k. place_of s i = Turn k \<longrightarrow> k \<le> i \<and> (\<forall>j<k. turn_done s j)) \<and>
      (\<forall>i k. place_of s i = Woken k \<longrightarrow>
         k < i \<and> (\<forall>j<k. turn_done s j) \<and> (turn_done s k \<or> (entry_broken s \<and> exit_broken s))) \<and>
      (\<forall>i. place_of s i = Acting \<longrightarrow> (\<forall>j<i. turn_done s j) \<and> active_point s = Some i) \<and>
      (\<forall>j. turn_done s j \<longrightarrow> \<not> before_turn (place_of s j)) \<and>
      (\<forall>k. signal s k \<longrightarrow> turn_done s k \<or> (entry_broken s \<and> exit_broken s)))"

section \<open>Scenarios used to evaluate the model\<close>

text \<open>A mesh object on which nothing has happened yet.\<close>

definition mesh0 :: mesh where
  "mesh0 = \<lparr>blob_lost_target = False, model_recv_ev_data = None, nodes_added = []\<rparr>"

text \<open>An iteration before which no thread appended a record and the run was not cancelled.\<close>

definition quiet :: poll where
  "quiet = \<lparr>global_end = False, appended = []\<rparr>"

text \<open>
  A store of points that were constructed and never registered: every address holds a
  point of test case \<^verbatim>\<open>TC\<close> whose wait-id is its address; the point at address 0 has a
  delay of two seconds. No element is registered.
\<close>

definition world0 :: world where
  "world0 =
     \<lparr>points = (\<lambda>p. \<lparr>test_case = ''TC'', wid = int p,
                      delay = (if p = 0 then Some 2 else None), done_flag = None\<rparr>),
      flags = (\<lambda>f. False), next_flag = 0,
      elems = (\<lambda>e. SynchElem_init []), next_elem = 0,
      synch_table = [], trace = []\<rparr>"

text \<open>The scenario of points 0 and 1, registered once.\<close>

definition world1 :: world where
  "world1 = add_synch_element [0, 1] world0"

text \<open>
  A run of two threads without cancelling: thread 0 arrives at the entry barrier,
  thread 1 completes it, thread 0 takes its turn and ends it, thread 1 is woken by
  the signal of point 0 and takes its turn.
\<close>

definition run2 :: "system list" where
  "run2 =
    (let s1 = moved 0 InEntry (start_state\<lparr>entry_count := 1\<rparr>);
         s2 = moved 1 PastEntry
                (s1\<lparr>entry_count := 2, entry_open := True, signal := (\<lambda>k. False)\<rparr>);
         s3 = moved 0 PastEntry s2;
         s4 = moved 0 (Turn 0) s3;
         s5 = moved 0 Acting (s4\<lparr>active_point := Some 0\<rparr>);
         s6 = moved 1 (Turn 0) s5;
         s7 = moved 0 AtExit
                (s6\<lparr>signal := (signal s6)(0 := True), turn_done := (turn_done s6)(0 := True)\<rparr>);
         s8 = moved 1 (Woken 0) s7;
         s9 = moved 1 (Turn 1) s8;
         s10 = moved 1 Acting (s9\<lparr>active_point := Some 1\<rparr>)
     in [s1, s2, s3, s4, s5, s6, s7, s8, s9, s10])"

section \<open>Properties of the procedure-completion predicates\<close>

text \<open>
  With an empty list and the expected count 0, \<^verbatim>\<open>is_procedure_done\<close> reports the
  procedure as done.
\<close>

theorem is_procedure_done_empty_counterexample:
  "is_procedure_done ([] :: pyval list) (Some 0) \<and> length ([] :: pyval list) = 0"
  by (simp add: is_procedure_done_def)

text \<open>
  Claim C9, as amended. With a non-positive expected count,
  \<^verbatim>\<open>GattCl.is_notification_rxed\<close> holds exactly when at least one notification was
  received, whereas \<^verbatim>\<open>is_procedure_done\<close> holds whatever the list contains; a count
  that is still \<^verbatim>\<open>None\<close> is never done.
\<close>

theorem unbounded_count_sentinel:
  "c \<le> 0 \<Longrightarrow>
     (is_notification_rxed ns c \<longleftrightarrow> length ns \<noteq> 0) \<and>
     is_procedure_done xs (Some c) \<and>
     \<not> is_procedure_done xs None"
  by (simp add: is_notification_rxed_def is_procedure_done_def)

theorem unbounded_count_sentinel_witness:
  "(0::int) \<le> 0 \<and> is_notification_rxed [PNone] 0 \<and>
   is_procedure_done ([] :: pyval list) (Some 0) \<and>
   \<not> is_procedure_done ([] :: pyval list) None"
  using unbounded_count_sentinel [of 0 "[PNone]" "[] :: pyval list"] by simp

text \<open>
  The two predicates under \<^verbatim>\<open>wait_for_event\<close>, as \<^verbatim>\<open>wait_for_notifications\<close> and
  \<^verbatim>\<open>wait_for_prim_svcs\<close> call it: with the expected count 0 the first waits for a
  notification to arrive, the second returns at once.
\<close>

lemma wait_for_notifications_idle:
  "wait_for_event ([] :: pyval list) [(False, []), (False, [])] is_notification_rxed 0 = Inr False"
  by (simp add: wait_for_event_def is_notification_rxed_def raise_on_global_end_def)

lemma wait_for_notifications_arrived:
  "wait_for_event ([] :: pyval list) [(False, []), (False, [PNone])] is_notification_rxed 0 = Inr True"
  by (simp add: wait_for_event_def is_notification_rxed_def raise_on_global_end_def)

lemma wait_for_procedure_with_count_zero:
  "wait_for_event (xs, Some 0) ticks (\<lambda>(l, cnt) args. is_procedure_done l cnt) args = Inr True"
  by (simp add: wait_for_event_def is_procedure_done_def)

section \<open>Resetting the core event queues\<close>

lemma cleanup_keys: "map fst (cleanup r qs) = map fst qs"
  by (induction r qs rule: cleanup.induct) auto

lemma cleanup_map_of:
  "map_of (cleanup r qs) k =
     (if k = r then map_of qs k else map_option (\<lambda>q. []) (map_of qs k))"
  by (induction r qs rule: cleanup.induct) auto

text \<open>
  Claim C10. \<^verbatim>\<open>CORE.cleanup\<close> keeps every event category, leaves the queue of the
  IUT-ready category as it was, and empties the queue of every other category.
\<close>

theorem cleanup_spares_iut_ready:
  "map fst (cleanup r qs) = map fst qs \<and>
   map_of (cleanup r qs) r = map_of qs r \<and>
   (\<forall>k q. k \<noteq> r \<and> map_of qs k = Some q \<longrightarrow> map_of (cleanup r qs) k = Some [])"
  by (simp add: cleanup_keys cleanup_map_of)

theorem cleanup_spares_iut_ready_witness:
  "map_of (cleanup 128 [(128, [(0, PBool True)]), (3, [(1, PInt 5)])]) 128 = Some [(0, PBool True)] \<and>
   map_of (cleanup 128 [(128, [(0, PBool True)]), (3, [(1, PInt 5)])]) 3 = Some []"
  using cleanup_spares_iut_ready [of 128 "[(128, [(0, PBool True)]), (3, [(1, PInt 5)])]"]
  by simp

section \<open>Cancellation and the polling waits of the mesh object\<close>

lemma blob_loop_ignores_global_end:
  "wait_for_blob_target_lost_loop (map (\<lambda>(ge, s). (g ge s, s)) ticks) =
   wait_for_blob_target_lost_loop ticks"
  by (induction ticks rule: wait_for_blob_target_lost_loop.induct) auto

lemma model_added_op_loop_ignores_global_end:
  "wait_for_model_added_op_loop seen op (map (\<lambda>(ge, s). (g ge s, s)) ticks) =
   wait_for_model_added_op_loop seen op ticks"
  by (induction seen op ticks rule: wait_for_model_added_op_loop.induct) auto

text \<open>
  Raising the global end flag at every iteration changes nothing in the outcome of the
  two waits: they run until their own condition holds or the timer expires.
\<close>

lemma mesh_waits_ignore_global_end:
  "wait_for_blob_target_lost self (map (\<lambda>(ge, s). (True, s)) ticks) =
     wait_for_blob_target_lost self ticks \<and>
   wait_for_model_added_op self (map (\<lambda>(ge, s). (True, s)) ticks) op =
     wait_for_model_added_op self ticks op"
  using blob_loop_ignores_global_end [of "\<lambda>_ _. True"]
    model_added_op_loop_ignores_global_end [of _ _ "\<lambda>_ _. True"]
  by (simp add: wait_for_blob_target_lost_def wait_for_model_added_op_def)

text \<open>
  Claim C2, evaluated. With the global end flag raised from the first iteration on and
  three iterations before the timer expires, \<^verbatim>\<open>wait_for_blob_target_lost\<close> and
  \<^verbatim>\<open>wait_for_model_added_op\<close> run to the timeout and return \<^verbatim>\<open>False\<close>, while
  \<^verbatim>\<open>wait_for_node_added_uuid\<close> on the same input aborts.
\<close>

theorem mesh_waits_run_to_timeout_under_global_end:
  "wait_for_blob_target_lost mesh0 [(True, mesh0), (True, mesh0), (True, mesh0)] = Inr False \<and>
   fst (wait_for_model_added_op mesh0 [(True, mesh0), (True, mesh0), (True, mesh0)] [1, 2, 3, 4])
     = Inr False \<and>
   wait_for_node_added_uuid mesh0 [(True, mesh0), (True, mesh0), (True, mesh0)] ''u''
     = Inl GlobalEnd"
  by (simp add: wait_for_blob_target_lost_def wait_for_model_added_op_def
      wait_for_node_added_uuid_def mesh0_def model_op_received_def raise_on_global_end_def)

section \<open>Properties of the queue waits\<close>













text \<open>
  Removal goes by equality: the predicate accepts only the second record, the boolean,
  and the first record, which equals it, is the one that leaves the queue.
\<close>

lemma equal_record_removed_instead:
  "wait_event_with_condition [(0, PInt 1), (1, PBool True)] (\<lambda>fields. fields = [PBool True])
       [quiet] True
     = (Inr (Some (1, PBool True)), [(1, PBool True)])"
  by (simp add: quiet_def Let_def raise_on_global_end_def call_condition_def take_event_def
      same_or_equal_def)







section \<open>Properties of the synchronisation engine\<close>

subsection \<open>The example scenario\<close>

lemma world1_table: "synch_table world1 = [0]"
  by (simp add: world1_def world0_def add_synch_element_def Let_def)

lemma world1_elem:
  "elems world1 0 = SynchElem_init [0, 1]"
  by (simp add: world1_def world0_def add_synch_element_def Let_def)

lemma world1_points:
  "points world1 0 = \<lparr>test_case = ''TC'', wid = 0, delay = Some 2, done_flag = Some 0\<rparr>"
  "points world1 (Suc 0) = \<lparr>test_case = ''TC'', wid = 1, delay = None, done_flag = Some 1\<rparr>"
  by (simp_all add: world1_def world0_def add_synch_element_def Let_def)

lemma world1_find: "find_synch_point (synch_table world1) ''TC'' 1 world1 = Some (0, 1)"
  by (simp add: world1_table find_matching_def world1_elem SynchElem_init_def world1_points)

subsection \<open>Registration\<close>

lemma renew_next_flag: "next_flag (renew_done_flags ps w) = next_flag w + length ps"
  by (induction ps arbitrary: w) auto

lemma renew_old_flags: "f < next_flag w \<Longrightarrow> flags (renew_done_flags ps w) f = flags w f"
  by (induction ps arbitrary: w) auto

lemma renew_other_points: "p \<notin> set ps \<Longrightarrow> points (renew_done_flags ps w) p = points w p"
  by (induction ps arbitrary: w) auto

lemma renew_rest:
  "elems (renew_done_flags ps w) = elems w \<and> next_elem (renew_done_flags ps w) = next_elem w \<and>
   synch_table (renew_done_flags ps w) = synch_table w \<and> trace (renew_done_flags ps w) = trace w"
  by (induction ps arbitrary: w) auto

lemma renew_fresh:
  "p \<in> set ps \<Longrightarrow>
     \<exists>f. done_flag (points (renew_done_flags ps w) p) = Some f \<and>
         next_flag w \<le> f \<and> f < next_flag w + length ps \<and> \<not> flags (renew_done_flags ps w) f"
proof (induction ps arbitrary: w)
  case Nil
  then show ?case by simp
next
  case (Cons q rest)
  let ?w1 = "w\<lparr>points := (points w)(q := (points w q)\<lparr>done_flag := Some (next_flag w)\<rparr>),
          flags := (flags w)(next_flag w := False),
          next_flag := Suc (next_flag w)\<rparr>"
  show ?case
  proof (cases "p \<in> set rest")
    case True
    from Cons.IH [OF True, of ?w1] obtain f where
      "done_flag (points (renew_done_flags rest ?w1) p) = Some f"
      "next_flag ?w1 \<le> f" "f < next_flag ?w1 + length rest" "\<not> flags (renew_done_flags rest ?w1) f"
      by blast
    then show ?thesis by (intro exI [of _ f]) simp
  next
    case False
    with Cons.prems have pq: "p = q" by simp
    have "points (renew_done_flags rest ?w1) p = points ?w1 p"
      using False by (rule renew_other_points)
    moreover have "flags (renew_done_flags rest ?w1) (next_flag w) = flags ?w1 (next_flag w)"
      by (rule renew_old_flags) simp
    ultimately show ?thesis using pq by (intro exI [of _ "next_flag w"]) simp
  qed
qed

lemma renew_keeps_signal:
  "done_flag (points w p) \<noteq> None \<Longrightarrow> done_flag (points (renew_done_flags ps w) p) \<noteq> None"
  by (induction ps arbitrary: w) auto

lemma registered_world0: "registered world0"
  by (simp add: registered_def world0_def)

lemma registered_add_synch_element:
  assumes "registered w"
  shows "registered (add_synch_element elem w)"
proof -
  let ?w1 = "renew_done_flags elem w"
  let ?w2 = "add_synch_element elem w"
  have rest: "elems ?w1 = elems w" "next_elem ?w1 = next_elem w" "synch_table ?w1 = synch_table w"
    using renew_rest [of elem w] by simp_all
  have tab: "synch_table ?w2 = synch_table w @ [next_elem w]" "next_elem ?w2 = Suc (next_elem w)"
    "points ?w2 = points ?w1"
    using rest by (simp_all add: add_synch_element_def Let_def)
  have el: "\<And>e. e < next_elem w \<Longrightarrow> elems ?w2 e = elems w e"
    "sync_points (elems ?w2 (next_elem w)) = elem"
    using rest by (simp_all add: add_synch_element_def Let_def SynchElem_init_def)
  have old: "e < next_elem ?w2 \<and>
      (\<forall>p\<in>set (sync_points (elems ?w2 e)). done_flag (points ?w2 p) \<noteq> None)"
    if "e \<in> set (synch_table w)" for e
  proof -
    from that assms have e: "e < next_elem w"
      "\<forall>p\<in>set (sync_points (elems w e)). done_flag (points w p) \<noteq> None"
      by (simp_all add: registered_def)
    then show ?thesis using tab el(1) [OF e(1)] renew_keeps_signal by simp
  qed
  have new: "\<forall>p\<in>set elem. done_flag (points ?w2 p) \<noteq> None"
    using renew_fresh [of _ elem w] tab(3) by fastforce
  show ?thesis
    unfolding registered_def using old new tab el(2) by auto
qed

lemma registered_reinit: "registered (reinit w)"
  by (simp add: registered_def reinit_def)

text \<open>
  Claim C8. After \<^verbatim>\<open>add_synch_element\<close>, every point of the registered list refers to
  a completion signal that did not exist before the call and that is unset, whatever
  signal the point referred to before.
\<close>

theorem add_synch_element_fresh_signals:
  "\<forall>p\<in>set elem.
     \<exists>f. done_flag (points (add_synch_element elem w) p) = Some f \<and>
         next_flag w \<le> f \<and> f < next_flag (add_synch_element elem w) \<and>
         \<not> flags (add_synch_element elem w) f"
  using renew_fresh [of _ elem w]
  by (auto simp: add_synch_element_def Let_def renew_next_flag)

text \<open>
  The scenario of points 0 and 1 is registered a second time after a run that left
  every signal set.
\<close>

theorem add_synch_element_fresh_signals_witness:
  "(\<exists>f. done_flag (points (add_synch_element [0, 1] (world1\<lparr>flags := \<lambda>f. True\<rparr>)) 0) = Some f \<and>
        next_flag (world1\<lparr>flags := \<lambda>f. True\<rparr>) \<le> f \<and>
        f < next_flag (add_synch_element [0, 1] (world1\<lparr>flags := \<lambda>f. True\<rparr>)) \<and>
        \<not> flags (add_synch_element [0, 1] (world1\<lparr>flags := \<lambda>f. True\<rparr>)) f) \<and>
   flags (world1\<lparr>flags := \<lambda>f. True\<rparr>) 0"
proof -
  have "(0::nat) \<in> set [0, 1]" by simp
  with add_synch_element_fresh_signals [of "[0, 1]" "world1\<lparr>flags := \<lambda>f. True\<rparr>"]
  show ?thesis by simp
qed

subsection \<open>Cancelling\<close>

lemma released_more_refl: "released_more w w"
  by (simp add: released_more_def)

lemma released_more_trans: "released_more a b \<Longrightarrow> released_more b c \<Longrightarrow> released_more a c"
  by (simp add: released_more_def)

lemma set_done_released:
  "done_flag (points w p) = Some f \<Longrightarrow>
     \<exists>w'. set_done p w = Inr w' \<and> released_more w w' \<and> flags w' f"
  by (simp add: set_done_def logged_def released_more_def)

lemma set_done_each_released:
  "\<forall>p\<in>set ps. done_flag (points w p) \<noteq> None \<Longrightarrow>
     \<exists>w'. set_done_each ps w = Inr w' \<and> released_more w w' \<and>
          (\<forall>p\<in>set ps. \<exists>f. done_flag (points w p) = Some f \<and> flags w' f)"
proof (induction ps arbitrary: w)
  case Nil
  then show ?case by (simp add: released_more_refl)
next
  case (Cons p ps)
  from Cons.prems obtain f where f: "done_flag (points w p) = Some f" by auto
  from set_done_released [OF f] obtain w1 where
    w1: "set_done p w = Inr w1" "released_more w w1" "flags w1 f" by blast
  have pts: "points w1 = points w" using w1(2) by (simp add: released_more_def)
  with Cons.prems have "\<forall>p\<in>set ps. done_flag (points w1 p) \<noteq> None" by simp
  from Cons.IH [OF this] obtain w2 where
    w2: "set_done_each ps w1 = Inr w2" "released_more w1 w2"
      "\<forall>p\<in>set ps. \<exists>f. done_flag (points w1 p) = Some f \<and> flags w2 f" by blast
  have "flags w2 f" using w1(3) w2(2) by (simp add: released_more_def)
  with w1 w2 f pts have "set_done_each (p # ps) w = Inr w2 \<and> released_more w w2 \<and>
      (\<forall>q\<in>set (p # ps). \<exists>f. done_flag (points w q) = Some f \<and> flags w2 f)"
    using released_more_trans [OF w1(2) w2(2)] by simp
  then show ?case by blast
qed

lemma abort_released:
  "released_more w (abort sd e w) \<and> broken (barrier_of sd (elems (abort sd e w) e))"
  by (cases sd) (simp_all add: abort_def break_barrier_def released_more_def barrier_of_def)

lemma cancel_elem_released:
  assumes "\<forall>p\<in>set (sync_points (elems w e)). done_flag (points w p) \<noteq> None"
  shows "\<exists>w'. SynchElem_cancel_synch e w = Inr w' \<and> released_more w w' \<and>
          broken (start_barrier (elems w' e)) \<and> broken (end_barrier (elems w' e)) \<and>
          (\<forall>p\<in>set (sync_points (elems w e)). \<exists>f. done_flag (points w p) = Some f \<and> flags w' f)"
proof -
  let ?w1 = "abort Exit e w"
  let ?w2 = "abort Entry e ?w1"
  have r1: "released_more w ?w1" "broken (end_barrier (elems ?w1 e))"
    using abort_released [of w Exit e] by (simp_all add: barrier_of_def)
  have r2: "released_more ?w1 ?w2" "broken (start_barrier (elems ?w2 e))"
    using abort_released [of ?w1 Entry e] by (simp_all add: barrier_of_def)
  have r: "released_more w ?w2" using r1(1) r2(1) by (rule released_more_trans)
  then have same: "points ?w2 = points w" "sync_points (elems ?w2 e) = sync_points (elems w e)"
    by (simp_all add: released_more_def)
  have e2: "broken (end_barrier (elems ?w2 e))"
    using r1(2) r2(1) by (simp add: released_more_def)
  from assms same have "\<forall>p\<in>set (sync_points (elems w e)). done_flag (points ?w2 p) \<noteq> None"
    by simp
  from set_done_each_released [OF this] obtain w3 where
    w3: "set_done_each (sync_points (elems w e)) ?w2 = Inr w3" "released_more ?w2 w3"
      "\<forall>p\<in>set (sync_points (elems w e)). \<exists>f. done_flag (points ?w2 p) = Some f \<and> flags w3 f"
    by blast
  have "SynchElem_cancel_synch e w = Inr w3"
    using w3(1) by (simp add: SynchElem_cancel_synch_def)
  moreover have "released_more w w3" using r w3(2) by (rule released_more_trans)
  moreover have "broken (start_barrier (elems w3 e))" "broken (end_barrier (elems w3 e))"
    using r2(2) e2 w3(2) by (simp_all add: released_more_def)
  moreover have "\<forall>p\<in>set (sync_points (elems w e)). \<exists>f. done_flag (points w p) = Some f \<and> flags w3 f"
    using w3(3) same(1) by simp
  ultimately show ?thesis by blast
qed

lemma cancel_each_released:
  "\<forall>e\<in>set es. \<forall>p\<in>set (sync_points (elems w e)). done_flag (points w p) \<noteq> None \<Longrightarrow>
     \<exists>w'. cancel_each es w = Inr w' \<and> released_more w w' \<and>
       (\<forall>e\<in>set es. broken (start_barrier (elems w' e)) \<and> broken (end_barrier (elems w' e)) \<and>
          (\<forall>p\<in>set (sync_points (elems w e)). \<exists>f. done_flag (points w p) = Some f \<and> flags w' f))"
proof (induction es arbitrary: w)
  case Nil
  then show ?case by (simp add: released_more_refl)
next
  case (Cons e es)
  from Cons.prems have "\<forall>p\<in>set (sync_points (elems w e)). done_flag (points w p) \<noteq> None" by simp
  from cancel_elem_released [OF this] obtain w1 where
    w1: "SynchElem_cancel_synch e w = Inr w1" "released_more w w1"
      "broken (start_barrier (elems w1 e))" "broken (end_barrier (elems w1 e))"
      "\<forall>p\<in>set (sync_points (elems w e)). \<exists>f. done_flag (points w p) = Some f \<and> flags w1 f"
    by blast
  have same: "points w1 = points w" "\<And>x. sync_points (elems w1 x) = sync_points (elems w x)"
    using w1(2) by (simp_all add: released_more_def)
  with Cons.prems have "\<forall>e\<in>set es. \<forall>p\<in>set (sync_points (elems w1 e)). done_flag (points w1 p) \<noteq> None"
    by simp
  from Cons.IH [OF this] obtain w2 where
    w2: "cancel_each es w1 = Inr w2" "released_more w1 w2"
      "\<forall>e\<in>set es. broken (start_barrier (elems w2 e)) \<and> broken (end_barrier (elems w2 e)) \<and>
          (\<forall>p\<in>set (sync_points (elems w1 e)). \<exists>f. done_flag (points w1 p) = Some f \<and> flags w2 f)"
    by blast
  have a: "cancel_each (e # es) w = Inr w2" using w1(1) w2(1) by simp
  have b: "released_more w w2" using w1(2) w2(2) by (rule released_more_trans)
  have c: "broken (start_barrier (elems w2 e)) \<and> broken (end_barrier (elems w2 e)) \<and>
          (\<forall>p\<in>set (sync_points (elems w e)). \<exists>f. done_flag (points w p) = Some f \<and> flags w2 f)"
    using w1(3,4,5) w2(2) by (simp add: released_more_def) blast
  have d: "\<forall>x\<in>set es. broken (start_barrier (elems w2 x)) \<and> broken (end_barrier (elems w2 x)) \<and>
          (\<forall>p\<in>set (sync_points (elems w x)). \<exists>f. done_flag (points w p) = Some f \<and> flags w2 f)"
    using w2(3) same by simp
  from a b c d show ?case by auto
qed

lemma broken_barrier_wait_raises:
  "broken (barrier_of sd (elems w e)) \<Longrightarrow> fst (barrier_wait sd e ev w) = Raises BrokenBarrierError"
  by (simp add: barrier_wait_def Let_def logged_def)

lemma set_signal_wait_returns:
  "done_flag (points w p) = Some f \<Longrightarrow> flags w f \<Longrightarrow> fst (wait p sched w) = Returns ()"
  by (cases sched) (simp_all add: wait_def)

text \<open>
  Claim C7. On a registry whose elements were registered, \<^verbatim>\<open>cancel_synch\<close> succeeds and
  leaves the registry empty; for every element that was in the registry, both
  barriers are broken and the completion signal of every point is set. From then on
  a wait on either barrier of such an element raises instead of blocking, and a wait
  on the signal of any of its points returns at once.
\<close>

theorem cancel_synch_releases_everything:
  assumes "registered w"
  shows "\<exists>w'. Synch_cancel_synch w = Inr w' \<and> synch_table w' = [] \<and>
     (\<forall>e\<in>set (synch_table w).
        broken (start_barrier (elems w' e)) \<and> broken (end_barrier (elems w' e)) \<and>
        (\<forall>sd ev. fst (barrier_wait sd e ev w') = Raises BrokenBarrierError) \<and>
        (\<forall>p\<in>set (sync_points (elems w e)).
           (\<exists>f. done_flag (points w' p) = Some f \<and> flags w' f) \<and>
           (\<forall>sched. fst (wait p sched w') = Returns ())))"
proof -
  from assms
  have "\<forall>e\<in>set (synch_table w). \<forall>p\<in>set (sync_points (elems w e)). done_flag (points w p) \<noteq> None"
    by (simp add: registered_def)
  from cancel_each_released [OF this] obtain w1 where
    w1: "cancel_each (synch_table w) w = Inr w1" "released_more w w1"
      "\<forall>e\<in>set (synch_table w).
         broken (start_barrier (elems w1 e)) \<and> broken (end_barrier (elems w1 e)) \<and>
         (\<forall>p\<in>set (sync_points (elems w e)). \<exists>f. done_flag (points w p) = Some f \<and> flags w1 f)"
    by blast
  let ?w' = "w1\<lparr>synch_table := []\<rparr>"
  have pts: "points ?w' = points w" using w1(2) by (simp add: released_more_def)
  have res: "Synch_cancel_synch w = Inr ?w'" using w1(1) by (simp add: Synch_cancel_synch_def)
  have each: "broken (start_barrier (elems ?w' e)) \<and> broken (end_barrier (elems ?w' e)) \<and>
        (\<forall>sd ev. fst (barrier_wait sd e ev ?w') = Raises BrokenBarrierError) \<and>
        (\<forall>p\<in>set (sync_points (elems w e)).
           (\<exists>f. done_flag (points ?w' p) = Some f \<and> flags ?w' f) \<and>
           (\<forall>sched. fst (wait p sched ?w') = Returns ()))"
    if e: "e \<in> set (synch_table w)" for e
  proof -
    from w1(3) e have b: "broken (start_barrier (elems ?w' e))" "broken (end_barrier (elems ?w' e))"
      and s: "\<forall>p\<in>set (sync_points (elems w e)). \<exists>f. done_flag (points w p) = Some f \<and> flags w1 f"
      by simp_all
    have bw: "fst (barrier_wait sd e ev ?w') = Raises BrokenBarrierError" for sd ev
      using b by (cases sd) (simp_all add: broken_barrier_wait_raises barrier_of_def)
    have sw: "(\<exists>f. done_flag (points ?w' p) = Some f \<and> flags ?w' f) \<and>
           (\<forall>sched. fst (wait p sched ?w') = Returns ())"
      if "p \<in> set (sync_points (elems w e))" for p
    proof -
      from s that obtain f where f: "done_flag (points w p) = Some f" "flags w1 f" by blast
      then have "done_flag (points ?w' p) = Some f" "flags ?w' f" using pts by simp_all
      then show ?thesis using set_signal_wait_returns by blast
    qed
    from b bw sw show ?thesis by blast
  qed
  from res each show ?thesis by (intro exI [of _ ?w']) simp
qed

theorem cancel_synch_releases_everything_witness:
  "\<exists>w'. Synch_cancel_synch world1 = Inr w' \<and> synch_table w' = [] \<and>
     broken (start_barrier (elems w' 0)) \<and> broken (end_barrier (elems w' 0)) \<and>
     fst (barrier_wait Entry 0 Stall w') = Raises BrokenBarrierError \<and>
     (\<exists>f. done_flag (points w' 1) = Some f \<and> flags w' f) \<and>
     fst (wait 1 [] w') = Returns ()"
proof -
  have reg: "registered world1"
    unfolding world1_def using registered_world0 by (rule registered_add_synch_element)
  from cancel_synch_releases_everything [OF reg] obtain w' where
    w': "Synch_cancel_synch world1 = Inr w'" "synch_table w' = []"
      "\<forall>e\<in>set (synch_table world1).
        broken (start_barrier (elems w' e)) \<and> broken (end_barrier (elems w' e)) \<and>
        (\<forall>sd ev. fst (barrier_wait sd e ev w') = Raises BrokenBarrierError) \<and>
        (\<forall>p\<in>set (sync_points (elems world1 e)).
           (\<exists>f. done_flag (points w' p) = Some f \<and> flags w' f) \<and>
           (\<forall>sched. fst (wait p sched w') = Returns ()))"
    by blast
  from w'(3) have e0: "broken (start_barrier (elems w' 0))" "broken (end_barrier (elems w' 0))"
      "\<forall>sd ev. fst (barrier_wait sd 0 ev w') = Raises BrokenBarrierError"
      "\<forall>p\<in>set (sync_points (elems world1 0)).
           (\<exists>f. done_flag (points w' p) = Some f \<and> flags w' f) \<and>
           (\<forall>sched. fst (wait p sched w') = Returns ())"
    by (simp_all add: world1_table)
  from e0(4) have p1: "\<exists>f. done_flag (points w' 1) = Some f \<and> flags w' f"
      "\<forall>sched. fst (wait 1 sched w') = Returns ()"
    by (simp_all add: world1_elem SynchElem_init_def)
  from w'(1,2) e0(1,2,3) p1 show ?thesis by blast
qed

subsection \<open>The entry barrier\<close>

lemma start_broken_raises:
  assumes "find_synch_point (synch_table w) tc wd w = Some (e, sp)"
    and "broken (start_barrier (elems w e))"
  shows "fst (Synch_wait_for_start wd tc ev sched w) = Raises BrokenBarrierError"
  using assms
  by (simp add: Synch_wait_for_start_def SynchElem_wait_for_start_def barrier_step_def
      barrier_wait_def Let_def logged_def barrier_of_def)

lemma start_abort_raises:
  assumes "find_synch_point (synch_table w) tc wd w = Some (e, sp)"
    and "parties (start_barrier (elems w e)) \<noteq> 1"
  shows "fst (Synch_wait_for_start wd tc Abort sched w) = Raises BrokenBarrierError"
  using assms
  by (simp add: Synch_wait_for_start_def SynchElem_wait_for_start_def barrier_step_def
      barrier_wait_def Let_def logged_def barrier_of_def)

text \<open>
  Claim C4, evaluated. In the scenario of points 0 and 1, the thread of point 1 calls
  \<^verbatim>\<open>wait_for_start\<close>. When the entry barrier is aborted while the thread waits in it,
  and when the barrier was aborted before the call, the call raises
  \<^verbatim>\<open>BrokenBarrierError\<close>; it does not return \<^verbatim>\<open>None\<close>.
\<close>

theorem wait_for_start_raises_on_abort:
  "fst (Synch_wait_for_start 1 ''TC'' Abort [] world1) = Raises BrokenBarrierError \<and>
   fst (Synch_wait_for_start 1 ''TC'' Release [] (abort Entry 0 world1))
     = Raises BrokenBarrierError"
proof -
  have a: "parties (start_barrier (elems world1 0)) \<noteq> 1"
    by (simp add: world1_elem SynchElem_init_def)
  have f2: "find_synch_point (synch_table (abort Entry 0 world1)) ''TC'' 1 (abort Entry 0 world1)
      = Some (0, 1)"
    by (simp add: abort_def world1_table find_matching_def world1_elem SynchElem_init_def
        world1_points break_barrier_def)
  have b: "broken (start_barrier (elems (abort Entry 0 world1) 0))"
    by (simp add: abort_def break_barrier_def)
  show ?thesis
    using start_abort_raises [OF world1_find a] start_broken_raises [OF f2 b] by simp
qed

subsection \<open>Leaving a turn\<close>





subsection \<open>Waiting for a turn\<close>

lemma env_step_logged: "env_step a (logged x w) = logged x (env_step a w)"
  by (cases a) (simp_all add: logged_def abort_def split: option.splits)

lemma fold_env_logged: "fold env_step as (logged x w) = logged x (fold env_step as w)"
  by (induction as arbitrary: w) (simp_all add: env_step_logged)

lemma env_step_points: "points (env_step a w) = points w"
  by (cases a) (simp_all add: abort_def split: option.splits)

lemma env_step_trace: "trace (env_step a w) = trace w"
  by (cases a) (simp_all add: abort_def split: option.splits)

lemma fold_env_points: "points (fold env_step as w) = points w"
  by (induction as arbitrary: w) (simp_all add: env_step_points)

lemma fold_env_trace: "trace (fold env_step as w) = trace w"
  by (induction as arbitrary: w) (simp_all add: env_step_trace)

lemma flag_wait_moment:
  "flag_wait f sched w = (True, sched', w') \<Longrightarrow>
     \<exists>k. sched' = drop k sched \<and> w' = fold env_step (take k sched) w \<and> flags w' f"
proof (induction sched arbitrary: w)
  case Nil
  then have "sched' = drop 0 [] \<and> w' = fold env_step (take 0 []) w \<and> flags w' f" by auto
  then show ?case by blast
next
  case (Cons a sched)
  show ?case
  proof (cases "flags w f")
    case True
    with Cons.prems have "sched' = drop 0 (a # sched) \<and> w' = fold env_step (take 0 (a # sched)) w \<and> flags w' f"
      by simp
    then show ?thesis by blast
  next
    case False
    with Cons.prems have "flag_wait f sched (env_step a w) = (True, sched', w')" by simp
    from Cons.IH [OF this] obtain k where
      "sched' = drop k sched" "w' = fold env_step (take k sched) (env_step a w)" "flags w' f" by blast
    then have "sched' = drop (Suc k) (a # sched) \<and> w' = fold env_step (take (Suc k) (a # sched)) w \<and> flags w' f"
      by simp
    then show ?thesis by blast
  qed
qed

lemma wait_returns:
  assumes "wait p sched w = (Returns u, sched', w')"
  shows "\<exists>k f. done_flag (points w p) = Some f \<and> sched' = drop k sched \<and>
           w' = logged (Waited p) (fold env_step (take k sched) w) \<and>
           flags (fold env_step (take k sched) w) f"
proof -
  from assms obtain f where f: "done_flag (points w p) = Some f"
    by (auto simp: wait_def split: option.splits)
  with assms obtain w1 where w1: "flag_wait f sched w = (True, sched', w1)" "w' = logged (Waited p) w1"
    by (auto simp: wait_def split: prod.splits bool.splits if_splits)
  from flag_wait_moment [OF w1(1)] w1(2) f show ?thesis by blast
qed

lemma world_at_shift:
  "flags (world_at j (drop k sched) (logged x (fold env_step (take k sched) w))) =
   flags (world_at (k + j) sched w)"
proof -
  have "take (k + j) sched = take k sched @ take j (drop k sched)"
    by (simp add: take_add)
  then have "world_at j (drop k sched) (logged x (fold env_step (take k sched) w)) =
      logged x (world_at (k + j) sched w)"
    by (simp add: world_at_def fold_env_logged)
  then show ?thesis by (simp add: logged_def)
qed

lemma loop_turn:
  "fst (wait_for_your_turn_loop e sp pts sched w) = Returns True \<Longrightarrow>
     sp \<in> set pts \<and>
     active_synch_point (elems (snd (wait_for_your_turn_loop e sp pts sched w)) e) = Some sp \<and>
     trace (snd (wait_for_your_turn_loop e sp pts sched w)) =
       trace w @ map Waited (predecessors sp pts) \<and>
     (\<exists>ks. length ks = length (predecessors sp pts) \<and> sorted ks \<and>
        (\<forall>i<length ks. signal_set_at (ks ! i) sched w (predecessors sp pts ! i)))"
proof (induction pts arbitrary: sched w)
  case Nil
  then show ?case by simp
next
  case (Cons q rest)
  show ?case
  proof (cases "q = sp")
    case True
    then show ?thesis by (simp add: predecessors_def set_active_def)
  next
    case False
    obtain r sched1 w1 where wt: "wait q sched w = (r, sched1, w1)" by (cases "wait q sched w") auto
    with Cons.prems False obtain u where r: "r = Returns u"
      by (cases r) auto
    from wait_returns [OF wt [unfolded r]] obtain k f where
      kf: "done_flag (points w q) = Some f" "sched1 = drop k sched"
        "w1 = logged (Waited q) (fold env_step (take k sched) w)"
        "flags (fold env_step (take k sched) w) f" by blast
    from Cons.prems False wt r
    have nb: "\<not> (broken (start_barrier (elems w1 e)) \<or> broken (end_barrier (elems w1 e)))"
      by (auto split: if_splits)
    with False wt r
    have step: "wait_for_your_turn_loop e sp (q # rest) sched w = wait_for_your_turn_loop e sp rest sched1 w1"
      by simp
    with Cons.prems have "fst (wait_for_your_turn_loop e sp rest sched1 w1) = Returns True" by simp
    from Cons.IH [OF this] obtain ks where
      ih: "sp \<in> set rest"
        "active_synch_point (elems (snd (wait_for_your_turn_loop e sp rest sched1 w1)) e) = Some sp"
        "trace (snd (wait_for_your_turn_loop e sp rest sched1 w1)) = trace w1 @ map Waited (predecessors sp rest)"
        "length ks = length (predecessors sp rest)" "sorted ks"
        "\<forall>i<length ks. signal_set_at (ks ! i) sched1 w1 (predecessors sp rest ! i)"
      by blast
    have pts: "points w1 = points w" using kf(3) by (simp add: logged_def fold_env_points)
    have tr: "trace w1 = trace w @ [Waited q]" using kf(3) by (simp add: logged_def fold_env_trace)
    have pre: "predecessors sp (q # rest) = q # predecessors sp rest"
      using False by (simp add: predecessors_def)
    let ?ks = "k # map (\<lambda>j. k + j) ks"
    have shift: "\<And>j p. signal_set_at j sched1 w1 p = signal_set_at (k + j) sched w p"
      using kf(2,3) pts world_at_shift [of _ k sched "Waited q" w]
      by (simp add: signal_set_at_def split: option.splits)
    have first: "signal_set_at k sched w q"
      using kf(1,4) by (simp add: signal_set_at_def world_at_def)
    have "sorted (map (\<lambda>j. k + j) ks)"
      using ih(5) by (simp add: sorted_iff_nth_mono)
    then have srt: "sorted ?ks" by auto
    have all: "\<forall>i<length ?ks. signal_set_at (?ks ! i) sched w (predecessors sp (q # rest) ! i)"
    proof (intro allI impI)
      fix i assume i: "i < length ?ks"
      show "signal_set_at (?ks ! i) sched w (predecessors sp (q # rest) ! i)"
      proof (cases i)
        case 0
        with first pre show ?thesis by simp
      next
        case (Suc n)
        with i have n: "n < length ks" by simp
        with ih(6) have "signal_set_at (ks ! n) sched1 w1 (predecessors sp rest ! n)" by blast
        with shift have "signal_set_at (k + ks ! n) sched w (predecessors sp rest ! n)" by simp
        with Suc n pre show ?thesis by simp
      qed
    qed
    have len: "length ?ks = length (predecessors sp (q # rest))" using ih(4) pre by simp
    from len srt all have ex: "\<exists>ks. length ks = length (predecessors sp (q # rest)) \<and> sorted ks \<and>
        (\<forall>i<length ks. signal_set_at (ks ! i) sched w (predecessors sp (q # rest) ! i))"
      by blast
    from ih(1,2,3) tr pre step ex show ?thesis by simp
  qed
qed

text \<open>
  Claim C1. Whenever \<^verbatim>\<open>wait_for_your_turn\<close> returns \<^verbatim>\<open>True\<close> for a point, the point is
  in the list of the element and is now the active point; before returning, the
  thread came out of a wait on the signal of every point registered ahead of it, one
  after the other in the registered order and of no other point; and there are
  moments of the run, in that same order, at each of which the signal of the
  corresponding predecessor was set. This holds whatever the other threads do.
\<close>

theorem turn_begins_after_predecessors:
  assumes "fst (wait_for_your_turn e sp sched w) = Returns True"
  shows "sp \<in> set (sync_points (elems w e)) \<and>
     active_synch_point (elems (snd (wait_for_your_turn e sp sched w)) e) = Some sp \<and>
     trace (snd (wait_for_your_turn e sp sched w)) =
       trace w @ map Waited (predecessors sp (sync_points (elems w e))) \<and>
     (\<exists>ks. length ks = length (predecessors sp (sync_points (elems w e))) \<and> sorted ks \<and>
        (\<forall>i<length ks. signal_set_at (ks ! i) sched w (predecessors sp (sync_points (elems w e)) ! i)))"
  using loop_turn [of e sp "sync_points (elems w e)" sched w] assms
  by (simp add: wait_for_your_turn_def)

theorem turn_begins_after_predecessors_witness:
  "fst (wait_for_your_turn 0 1 [OtherSetDone 0] world1) = Returns True \<and>
   trace (snd (wait_for_your_turn 0 1 [OtherSetDone 0] world1)) = [Waited 0] \<and>
   active_synch_point (elems (snd (wait_for_your_turn 0 1 [OtherSetDone 0] world1)) 0) = Some 1 \<and>
   (\<exists>ks. length ks = 1 \<and> sorted ks \<and>
      (\<forall>i<length ks. signal_set_at (ks ! i) [OtherSetDone 0] world1 ([0] ! i)))"
proof -
  have run: "fst (wait_for_your_turn 0 1 [OtherSetDone 0] world1) = Returns True"
    by (simp add: wait_for_your_turn_def world1_elem SynchElem_init_def wait_def world1_points
        world1_def world0_def add_synch_element_def Let_def logged_def set_active_def)
  have tr: "trace world1 = []"
    by (simp add: world1_def world0_def add_synch_element_def Let_def)
  have pre: "predecessors (Suc 0) (sync_points (elems world1 0)) = [0]"
    by (simp add: predecessors_def world1_elem SynchElem_init_def)
  from turn_begins_after_predecessors [OF run] run show ?thesis
    by (simp add: tr pre)
qed

text \<open>Without the signal of point 0, the thread of point 1 stays blocked.\<close>

lemma turn_blocked_without_predecessor:
  "fst (wait_for_your_turn 0 1 [] world1) = Blocks"
  by (simp add: wait_for_your_turn_def world1_elem SynchElem_init_def wait_def world1_points
      world1_def world0_def add_synch_element_def Let_def)

subsection \<open>Turn order over all threads\<close>

lemma orderly_start: "orderly start_state"
  by (simp add: orderly_def start_state_def)

lemma turn_facts:
  "orderly s \<Longrightarrow> place_of s i = Turn k \<Longrightarrow> k \<le> i \<and> (\<forall>j<k. turn_done s j)"
  by (simp add: orderly_def)

lemma woken_facts:
  "orderly s \<Longrightarrow> place_of s i = Woken k \<Longrightarrow>
     k < i \<and> (\<forall>j<k. turn_done s j) \<and> (turn_done s k \<or> (entry_broken s \<and> exit_broken s))"
  by (simp add: orderly_def)

lemma acting_facts:
  "orderly s \<Longrightarrow> place_of s i = Acting \<Longrightarrow> (\<forall>j<i. turn_done s j) \<and> active_point s = Some i"
  by (simp add: orderly_def)

lemma done_facts:
  "orderly s \<Longrightarrow> turn_done s j \<Longrightarrow> \<not> before_turn (place_of s j)"
  by (simp add: orderly_def)

lemma signal_facts:
  "orderly s \<Longrightarrow> signal s k \<Longrightarrow> turn_done s k \<or> (entry_broken s \<and> exit_broken s)"
  by (simp add: orderly_def)

lemma orderlyI:
  assumes "\<And>i k. place_of s i = Turn k \<Longrightarrow> k \<le> i \<and> (\<forall>j<k. turn_done s j)"
    and "\<And>i k. place_of s i = Woken k \<Longrightarrow>
         k < i \<and> (\<forall>j<k. turn_done s j) \<and> (turn_done s k \<or> (entry_broken s \<and> exit_broken s))"
    and "\<And>i. place_of s i = Acting \<Longrightarrow> (\<forall>j<i. turn_done s j) \<and> active_point s = Some i"
    and "\<And>j. turn_done s j \<Longrightarrow> \<not> before_turn (place_of s j)"
    and "\<And>k. signal s k \<Longrightarrow> turn_done s k \<or> (entry_broken s \<and> exit_broken s)"
  shows "orderly s"
  using assms unfolding orderly_def by blast

text \<open>A step that only moves one thread to a place outside the turn protocol.\<close>

lemma orderly_moved_plain:
  assumes o: "orderly s"
    and pl: "pl \<noteq> Acting" "\<And>k. pl \<noteq> Turn k" "\<And>k. pl \<noteq> Woken k"
    and d: "turn_done s i \<Longrightarrow> \<not> before_turn pl"
  shows "orderly (moved i pl s)"
proof (rule orderlyI)
  fix j k assume "place_of (moved i pl s) j = Turn k"
  with pl have "place_of s j = Turn k" by (auto simp: moved_def split: if_splits)
  from turn_facts [OF o this] show "k \<le> j \<and> (\<forall>m<k. turn_done (moved i pl s) m)"
    by (simp add: moved_def)
next
  fix j k assume "place_of (moved i pl s) j = Woken k"
  with pl have "place_of s j = Woken k" by (auto simp: moved_def split: if_splits)
  from woken_facts [OF o this]
  show "k < j \<and> (\<forall>m<k. turn_done (moved i pl s) m) \<and>
     (turn_done (moved i pl s) k \<or> (entry_broken (moved i pl s) \<and> exit_broken (moved i pl s)))"
    by (simp add: moved_def)
next
  fix j assume "place_of (moved i pl s) j = Acting"
  with pl have "place_of s j = Acting" by (auto simp: moved_def split: if_splits)
  from acting_facts [OF o this]
  show "(\<forall>m<j. turn_done (moved i pl s) m) \<and> active_point (moved i pl s) = Some j"
    by (simp add: moved_def)
next
  fix j assume "turn_done (moved i pl s) j"
  then have t: "turn_done s j" by (simp add: moved_def)
  from done_facts [OF o t] d t show "\<not> before_turn (place_of (moved i pl s) j)"
    by (cases "j = i") (auto simp: moved_def)
next
  fix k assume "signal (moved i pl s) k"
  then have "signal s k" by (simp add: moved_def)
  from signal_facts [OF o this]
  show "turn_done (moved i pl s) k \<or> (entry_broken (moved i pl s) \<and> exit_broken (moved i pl s))"
    by (simp add: moved_def)
qed

lemma not_done_before_turn:
  "orderly s \<Longrightarrow> before_turn (place_of s i) \<Longrightarrow> \<not> turn_done s i"
  using done_facts by blast

lemma orderly_shared:
  assumes "orderly s"
  shows "orderly (s\<lparr>entry_count := c\<rparr>)"
    and "orderly (s\<lparr>exit_count := c\<rparr>)"
    and "orderly (s\<lparr>entry_count := c, entry_open := True, signal := (\<lambda>k. False)\<rparr>)"
    and "orderly (s\<lparr>exit_count := c, exit_open := True, signal := (\<lambda>k. False)\<rparr>)"
    and "orderly (s\<lparr>exit_broken := True\<rparr>)"
    and "orderly (s\<lparr>entry_broken := True\<rparr>)"
    and "exit_broken s \<Longrightarrow> entry_broken s \<Longrightarrow> orderly (s\<lparr>signal := (signal s)(k := True)\<rparr>)"
  using assms by (simp_all add: orderly_def) blast+

lemma place_shared [simp]:
  "place_of (s\<lparr>entry_count := c\<rparr>) = place_of s"
  "place_of (s\<lparr>exit_count := c\<rparr>) = place_of s"
  "turn_done (s\<lparr>entry_count := c\<rparr>) = turn_done s"
  "turn_done (s\<lparr>exit_count := c\<rparr>) = turn_done s"
  by simp_all

lemma orderly_moved_turn:
  assumes o: "orderly s" and b: "before_turn (place_of s i)"
    and k: "k \<le> i" "\<forall>j<k. turn_done s j"
  shows "orderly (moved i (Turn k) s)"
proof (rule orderlyI)
  fix j m assume a: "place_of (moved i (Turn k) s) j = Turn m"
  show "m \<le> j \<and> (\<forall>l<m. turn_done (moved i (Turn k) s) l)"
  proof (cases "j = i")
    case True
    with a k show ?thesis by (simp add: moved_def)
  next
    case False
    with a have "place_of s j = Turn m" by (simp add: moved_def)
    from turn_facts [OF o this] show ?thesis by (simp add: moved_def)
  qed
next
  fix j m assume "place_of (moved i (Turn k) s) j = Woken m"
  then have "place_of s j = Woken m" by (auto simp: moved_def split: if_splits)
  from woken_facts [OF o this]
  show "m < j \<and> (\<forall>l<m. turn_done (moved i (Turn k) s) l) \<and>
     (turn_done (moved i (Turn k) s) m \<or>
      (entry_broken (moved i (Turn k) s) \<and> exit_broken (moved i (Turn k) s)))"
    by (simp add: moved_def)
next
  fix j assume "place_of (moved i (Turn k) s) j = Acting"
  then have "place_of s j = Acting" by (auto simp: moved_def split: if_splits)
  from acting_facts [OF o this]
  show "(\<forall>l<j. turn_done (moved i (Turn k) s) l) \<and> active_point (moved i (Turn k) s) = Some j"
    by (simp add: moved_def)
next
  fix j assume "turn_done (moved i (Turn k) s) j"
  then have t: "turn_done s j" by (simp add: moved_def)
  with not_done_before_turn [OF o b] have "j \<noteq> i" by blast
  with done_facts [OF o t] show "\<not> before_turn (place_of (moved i (Turn k) s) j)"
    by (simp add: moved_def)
next
  fix m assume "signal (moved i (Turn k) s) m"
  then have "signal s m" by (simp add: moved_def)
  from signal_facts [OF o this]
  show "turn_done (moved i (Turn k) s) m \<or>
     (entry_broken (moved i (Turn k) s) \<and> exit_broken (moved i (Turn k) s))"
    by (simp add: moved_def)
qed

lemma orderly_moved_woken:
  assumes o: "orderly s" and p: "place_of s i = Turn k" and ne: "k \<noteq> i" and sg: "signal s k"
  shows "orderly (moved i (Woken k) s)"
proof (rule orderlyI)
  fix j m assume "place_of (moved i (Woken k) s) j = Turn m"
  then have "place_of s j = Turn m" by (auto simp: moved_def split: if_splits)
  from turn_facts [OF o this] show "m \<le> j \<and> (\<forall>l<m. turn_done (moved i (Woken k) s) l)"
    by (simp add: moved_def)
next
  fix j m assume a: "place_of (moved i (Woken k) s) j = Woken m"
  show "m < j \<and> (\<forall>l<m. turn_done (moved i (Woken k) s) l) \<and>
     (turn_done (moved i (Woken k) s) m \<or>
      (entry_broken (moved i (Woken k) s) \<and> exit_broken (moved i (Woken k) s)))"
  proof (cases "j = i")
    case True
    with a have "m = k" by (simp add: moved_def)
    with True turn_facts [OF o p] ne signal_facts [OF o sg] show ?thesis
      by (simp add: moved_def)
  next
    case False
    with a have "place_of s j = Woken m" by (simp add: moved_def)
    from woken_facts [OF o this] show ?thesis by (simp add: moved_def)
  qed
next
  fix j assume "place_of (moved i (Woken k) s) j = Acting"
  then have "place_of s j = Acting" by (auto simp: moved_def split: if_splits)
  from acting_facts [OF o this]
  show "(\<forall>l<j. turn_done (moved i (Woken k) s) l) \<and> active_point (moved i (Woken k) s) = Some j"
    by (simp add: moved_def)
next
  fix j assume "turn_done (moved i (Woken k) s) j"
  then have t: "turn_done s j" by (simp add: moved_def)
  have "before_turn (place_of s i)" using p by (simp add: before_turn_def)
  with not_done_before_turn [OF o] t have "j \<noteq> i" by blast
  with done_facts [OF o t] show "\<not> before_turn (place_of (moved i (Woken k) s) j)"
    by (simp add: moved_def)
next
  fix m assume "signal (moved i (Woken k) s) m"
  then have "signal s m" by (simp add: moved_def)
  from signal_facts [OF o this]
  show "turn_done (moved i (Woken k) s) m \<or>
     (entry_broken (moved i (Woken k) s) \<and> exit_broken (moved i (Woken k) s))"
    by (simp add: moved_def)
qed

lemma orderly_turn_taken:
  assumes o: "orderly s" and p: "place_of s i = Turn i"
  shows "orderly (moved i Acting (s\<lparr>active_point := Some i\<rparr>))"
proof -
  let ?s' = "moved i Acting (s\<lparr>active_point := Some i\<rparr>)"
  have bi: "before_turn (place_of s i)" using p by (simp add: before_turn_def)
  have nd: "\<not> turn_done s i" using not_done_before_turn [OF o bi] .
  have all: "\<forall>j<i. turn_done s j" using turn_facts [OF o p] by simp
  have alone: "place_of s j \<noteq> Acting" if "j \<noteq> i" for j
  proof
    assume a: "place_of s j = Acting"
    show False
    proof (cases "j < i")
      case True
      with all have "turn_done s j" by simp
      from done_facts [OF o this] a show False by (simp add: before_turn_def)
    next
      case False
      with that have "i < j" by simp
      with acting_facts [OF o a] nd show False by blast
    qed
  qed
  show ?thesis
  proof (rule orderlyI)
    fix j m assume "place_of ?s' j = Turn m"
    then have "place_of s j = Turn m" by (auto simp: moved_def split: if_splits)
    from turn_facts [OF o this] show "m \<le> j \<and> (\<forall>l<m. turn_done ?s' l)"
      by (simp add: moved_def)
  next
    fix j m assume "place_of ?s' j = Woken m"
    then have "place_of s j = Woken m" by (auto simp: moved_def split: if_splits)
    from woken_facts [OF o this]
    show "m < j \<and> (\<forall>l<m. turn_done ?s' l) \<and>
       (turn_done ?s' m \<or> (entry_broken ?s' \<and> exit_broken ?s'))"
      by (simp add: moved_def)
  next
    fix j assume a: "place_of ?s' j = Acting"
    have "j = i"
    proof (rule ccontr)
      assume "j \<noteq> i"
      with a alone [of j] show False by (simp add: moved_def)
    qed
    with all show "(\<forall>l<j. turn_done ?s' l) \<and> active_point ?s' = Some j"
      by (simp add: moved_def)
  next
    fix j assume "turn_done ?s' j"
    then have t: "turn_done s j" by (simp add: moved_def)
    with nd have "j \<noteq> i" by blast
    with done_facts [OF o t] show "\<not> before_turn (place_of ?s' j)"
      by (simp add: moved_def)
  next
    fix m assume "signal ?s' m"
    then have "signal s m" by (simp add: moved_def)
    from signal_facts [OF o this]
    show "turn_done ?s' m \<or> (entry_broken ?s' \<and> exit_broken ?s')"
      by (simp add: moved_def)
  qed
qed

lemma orderly_turn_ended:
  assumes o: "orderly s" and p: "place_of s i = Acting" and a: "active_point s = Some a"
  shows "orderly (moved i AtExit
     (s\<lparr>signal := (signal s)(a := True), turn_done := (turn_done s)(i := True)\<rparr>))"
proof -
  let ?s' = "moved i AtExit (s\<lparr>signal := (signal s)(a := True), turn_done := (turn_done s)(i := True)\<rparr>)"
  from acting_facts [OF o p] a have ai: "a = i" by simp
  show ?thesis
  proof (rule orderlyI)
    fix j m assume "place_of ?s' j = Turn m"
    then have "place_of s j = Turn m" by (auto simp: moved_def split: if_splits)
    from turn_facts [OF o this] show "m \<le> j \<and> (\<forall>l<m. turn_done ?s' l)"
      by (simp add: moved_def)
  next
    fix j m assume "place_of ?s' j = Woken m"
    then have "place_of s j = Woken m" by (auto simp: moved_def split: if_splits)
    from woken_facts [OF o this]
    show "m < j \<and> (\<forall>l<m. turn_done ?s' l) \<and>
       (turn_done ?s' m \<or> (entry_broken ?s' \<and> exit_broken ?s'))"
      by (auto simp: moved_def)
  next
    fix j assume "place_of ?s' j = Acting"
    then have "place_of s j = Acting" by (auto simp: moved_def split: if_splits)
    from acting_facts [OF o this]
    show "(\<forall>l<j. turn_done ?s' l) \<and> active_point ?s' = Some j"
      by (simp add: moved_def)
  next
    fix j assume t: "turn_done ?s' j"
    show "\<not> before_turn (place_of ?s' j)"
    proof (cases "j = i")
      case True
      then show ?thesis by (simp add: moved_def before_turn_def)
    next
      case False
      with t have "turn_done s j" by (simp add: moved_def)
      from done_facts [OF o this] False show ?thesis by (simp add: moved_def)
    qed
  next
    fix m assume sg: "signal ?s' m"
    show "turn_done ?s' m \<or> (entry_broken ?s' \<and> exit_broken ?s')"
    proof (cases "m = i")
      case True
      then show ?thesis by (simp add: moved_def)
    next
      case False
      with sg ai have "signal s m" by (simp add: moved_def)
      from signal_facts [OF o this] show ?thesis by (auto simp: moved_def)
    qed
  qed
qed

lemma orderly_step: "step n s s' \<Longrightarrow> orderly s \<Longrightarrow> orderly s'"
proof (induction rule: step.induct)
  case (entry_broken_raises i s)
  then show ?case by (simp add: orderly_moved_plain before_turn_def)
next
  case (entry_arrive i s)
  have b: "before_turn (place_of s i)" using entry_arrive by (simp add: before_turn_def)
  show ?case
    using orderly_shared(1) [OF entry_arrive(5)] not_done_before_turn [OF entry_arrive(5) b]
    by (intro orderly_moved_plain) simp_all
next
  case (entry_complete i s)
  have b: "before_turn (place_of s i)" using entry_complete by (simp add: before_turn_def)
  show ?case
    using orderly_shared(3) [OF entry_complete(5)] not_done_before_turn [OF entry_complete(5) b]
    by (intro orderly_moved_plain) simp_all
next
  case (entry_released i s)
  have b: "before_turn (place_of s i)" using entry_released by (simp add: before_turn_def)
  show ?case
    using entry_released(5) not_done_before_turn [OF entry_released(5) b]
    by (intro orderly_moved_plain) simp_all
next
  case (entry_aborted i s)
  then show ?case by (simp add: orderly_moved_plain before_turn_def)
next
  case (entry_checked i s)
  have b: "before_turn (place_of s i)" using entry_checked by (simp add: before_turn_def)
  show ?case
  proof (cases "entry_broken s")
    case True
    with entry_checked show ?thesis by (simp add: orderly_moved_plain before_turn_def)
  next
    case False
    with entry_checked b show ?thesis by (simp add: orderly_moved_turn)
  qed
next
  case (turn_taken i s)
  then show ?case by (simp add: orderly_turn_taken)
next
  case (turn_waited i s k)
  then show ?case by (simp add: orderly_moved_woken)
next
  case (turn_exhausted i s k)
  then show ?case by (simp add: orderly_moved_plain before_turn_def)
next
  case (turn_checked i s k)
  have b: "before_turn (place_of s i)" using turn_checked by (simp add: before_turn_def)
  show ?case
  proof (cases "entry_broken s \<or> exit_broken s")
    case True
    with turn_checked show ?thesis by (simp add: orderly_moved_plain before_turn_def)
  next
    case False
    from woken_facts [OF turn_checked(3) turn_checked(2)] False
    have "Suc k \<le> i" "\<forall>j<Suc k. turn_done s j" by (auto simp: less_Suc_eq)
    with turn_checked b False show ?thesis by (simp add: orderly_moved_turn)
  qed
next
  case (turn_ended i s a)
  then show ?case by (simp add: orderly_turn_ended)
next
  case (exit_broken_raises i s)
  then show ?case by (simp add: orderly_moved_plain before_turn_def)
next
  case (exit_arrive i s)
  show ?case
    using orderly_shared(2) [OF exit_arrive(5)]
    by (intro orderly_moved_plain) (simp_all add: before_turn_def)
next
  case (exit_complete i s)
  show ?case
    using orderly_shared(4) [OF exit_complete(5)]
    by (intro orderly_moved_plain) (simp_all add: before_turn_def)
next
  case (exit_released i s)
  then show ?case by (simp add: orderly_moved_plain before_turn_def)
next
  case (exit_aborted i s)
  then show ?case by (simp add: orderly_moved_plain before_turn_def)
next
  case (exit_checked i s)
  then show ?case by (simp add: orderly_moved_plain before_turn_def)
next
  case (cancel_abort_exit s)
  then show ?case by (simp add: orderly_shared)
next
  case (cancel_abort_entry s)
  then show ?case by (simp add: orderly_shared)
next
  case (cancel_set_done s k)
  then show ?case by (simp add: orderly_shared)
qed

lemma reachable_orderly: "reachable n s \<Longrightarrow> orderly s"
  by (induction rule: reachable.induct) (auto intro: orderly_start orderly_step)

text \<open>
  In every state the threads of a scenario can reach, at most one thread holds the
  element between \<^verbatim>\<open>wait_for_start\<close> and \<^verbatim>\<open>wait_for_end\<close>.
\<close>

lemma one_turn_at_a_time:
  assumes "reachable n s" "place_of s i = Acting" "place_of s j = Acting"
  shows "i = j"
proof (rule ccontr)
  assume ne: "i \<noteq> j"
  have o: "orderly s" using assms(1) by (rule reachable_orderly)
  { fix a b assume ab: "a < b" "place_of s a = Acting" "place_of s b = Acting"
    from acting_facts [OF o ab(3)] ab(1) have "turn_done s a" by simp
    from done_facts [OF o this] ab(2) have False by (simp add: before_turn_def) }
  with ne assms(2,3) show False by (cases "i < j") (auto simp: not_less le_less)
qed

text \<open>
  When the thread of point \<open>i\<close> holds the element, the thread of every point
  registered before it has set its signal in \<^verbatim>\<open>wait_for_end\<close> and is past its turn.
\<close>

lemma turns_in_registered_order:
  assumes "reachable n s" "place_of s i = Acting" "j < i"
  shows "turn_done s j \<and> \<not> before_turn (place_of s j)"
proof -
  have o: "orderly s" using assms(1) by (rule reachable_orderly)
  from acting_facts [OF o assms(2)] assms(3) have "turn_done s j" by simp
  with done_facts [OF o] show ?thesis by simp
qed

text \<open>The run of two threads is a run of the protocol, and ends with thread 1 in its turn.\<close>

lemma two_threads_take_turns:
  "reachable 2 (run2 ! 9) \<and> place_of (run2 ! 9) 1 = Acting \<and>
   place_of (run2 ! 9) 0 = AtExit \<and> turn_done (run2 ! 9) 0"
proof -
  note defs = run2_def Let_def start_state_def moved_def numeral_2_eq_2
  have r1: "reachable 2 (run2 ! 0)"
    using reachable_step [OF reachable_start entry_arrive [of 0 2 start_state]]
    by (simp add: defs)
  have r2: "reachable 2 (run2 ! 1)"
    using reachable_step [OF r1 entry_complete [of 1 2 "run2 ! 0"]] by (simp add: defs)
  have r3: "reachable 2 (run2 ! 2)"
    using reachable_step [OF r2 entry_released [of 0 2 "run2 ! 1"]] by (simp add: defs)
  have r4: "reachable 2 (run2 ! 3)"
    using reachable_step [OF r3 entry_checked [of 0 2 "run2 ! 2"]] by (simp add: defs)
  have r5: "reachable 2 (run2 ! 4)"
    using reachable_step [OF r4 turn_taken [of 0 2 "run2 ! 3"]] by (simp add: defs)
  have r6: "reachable 2 (run2 ! 5)"
    using reachable_step [OF r5 entry_checked [of 1 2 "run2 ! 4"]] by (simp add: defs)
  have r7: "reachable 2 (run2 ! 6)"
    using reachable_step [OF r6 turn_ended [of 0 2 "run2 ! 5" 0]] by (simp add: defs)
  have r8: "reachable 2 (run2 ! 7)"
    using reachable_step [OF r7 turn_waited [of 1 2 "run2 ! 6" 0]] by (simp add: defs)
  have r9: "reachable 2 (run2 ! 8)"
    using reachable_step [OF r8 turn_checked [of 1 2 "run2 ! 7" 0]] by (simp add: defs)
  have r10: "reachable 2 (run2 ! 9)"
    using reachable_step [OF r9 turn_taken [of 1 2 "run2 ! 8"]] by (simp add: defs)
  then show ?thesis by (simp add: defs)
qed

end
